theory Spec2Isabelle
  imports Complex_Main "HOL-Library.Word" "HOL-Library.Sublist"
begin

section \<open>JavaScript strings\<close>

text \<open>
  A JavaScript string is a sequence of UTF-16 code units; \<open>length\<close>, \<open>substring\<close>,
  \<open>slice\<close> and \<open>startsWith\<close> count code units. \<open>js\<close> turns an ASCII literal into
  such a sequence.
\<close>

type_synonym jschar = "16 word"
type_synonym jsstring = "jschar list"

definition js :: "string \<Rightarrow> jsstring" where
  "js s = map of_char s"

text \<open>
  The code units that \<open>String.prototype.trim\<close> and \<open>trimStart\<close> strip: ECMAScript's
  WhiteSpace (TAB, VT, FF, SP, NBSP, ZWNBSP and the Unicode space separators) and
  LineTerminator (LF, CR, LS, PS).
\<close>

definition isWhiteSpace :: "jschar \<Rightarrow> bool" where
  "isWhiteSpace c = (c \<in> {0x09, 0x0A, 0x0B, 0x0C, 0x0D, 0x20, 0xA0, 0x1680,
      0x2000, 0x2001, 0x2002, 0x2003, 0x2004, 0x2005, 0x2006, 0x2007, 0x2008, 0x2009, 0x200A,
      0x2028, 0x2029, 0x202F, 0x205F, 0x3000, 0xFEFF})"

definition trimStart :: "jsstring \<Rightarrow> jsstring" where
  "trimStart s = dropWhile isWhiteSpace s"

definition trim :: "jsstring \<Rightarrow> jsstring" where
  "trim s = rev (dropWhile isWhiteSpace (rev (dropWhile isWhiteSpace s)))"

definition startsWith :: "jsstring \<Rightarrow> jsstring \<Rightarrow> bool" where
  "startsWith s p = (take (length p) s = p)"

text \<open>\<open>s.slice(1)\<close>: the string without its first code unit.\<close>

definition slice1 :: "jsstring \<Rightarrow> jsstring" where
  "slice1 s = drop 1 s"

section \<open>Script entries and the parser\<close>

text \<open>
  The objects pushed by \<open>parseLines\<close>: \<open>{ type, text, showPrompt, instant }\<close>. The field
  \<open>type\<close> holds \<open>'command'\<close> or \<open>'output'\<close>.
\<close>

datatype kind = Command | Output

record entry =
  etype :: kind
  etext :: jsstring
  showPrompt :: bool
  instant :: bool

text \<open>
  One iteration of the \<open>for (const line of inputLines)\<close> loop of \<open>parseLines\<close>, on the
  loop's state \<open>(result, inInstantBlock)\<close>. The marker test comes first and \<open>continue\<close>s.
\<close>

definition parseStep :: "entry list \<times> bool \<Rightarrow> jsstring \<Rightarrow> entry list \<times> bool" where
  "parseStep st line =
     (let result = fst st; inInstantBlock = snd st; trimmed = trim line in
      if trimmed = js ''!!'' then (result, \<not> inInstantBlock)
      else
        let trimmedStart = trimStart line in
        if startsWith trimmedStart (js ''>'') then
          let command = trimStart (slice1 trimmedStart) in
          (result @ [\<lparr>etype = Command, etext = command, showPrompt = True, instant = False\<rparr>],
           inInstantBlock)
        else
          (result @ [\<lparr>etype = Output, etext = line, showPrompt = False,
                      instant = inInstantBlock\<rparr>],
           inInstantBlock))"

text \<open>\<open>parseLines(inputLines, promptText)\<close>; the second argument is not used by the code.\<close>

definition parseLines :: "jsstring list \<Rightarrow> jsstring \<Rightarrow> entry list" where
  "parseLines inputLines promptText = fst (foldl parseStep ([], False) inputLines)"

text \<open>The same loop entered with an empty result and the block flag \<open>b\<close>.\<close>

definition parseFrom :: "bool \<Rightarrow> jsstring list \<Rightarrow> entry list" where
  "parseFrom b inputLines = fst (foldl parseStep ([], b) inputLines)"

section \<open>Classification of a line\<close>

text \<open>\<open>config.outputMode || 'typing'\<close>; the code only ever compares it with \<open>'instant'\<close>.\<close>

datatype outputMode = Typing | InstantMode

text \<open>
  The generator's test, written twice in \<open>generateAnimationFrames\<close> (for the current line
  and for the next line of a batch) and once more in the \<open>typedChars\<close> sum:
  \<open>(outputMode === 'instant' && !l.showPrompt) || l.instant\<close>.
\<close>

definition shouldBeInstant :: "outputMode \<Rightarrow> entry \<Rightarrow> bool" where
  "shouldBeInstant om l = ((om = InstantMode \<and> \<not> showPrompt l) \<or> instant l)"

section \<open>Display lines and JavaScript arrays\<close>

text \<open>
  A line of the export path's \<open>displayLines\<close>: \<open>{ text, showPrompt }\<close>. It has no field
  for completeness.
\<close>

record dline =
  ltext :: jsstring
  lshowPrompt :: bool

text \<open>
  A JavaScript array that may have holes: \<open>None\<close> is an empty slot. \<open>a[i] = v\<close> overwrites
  inside the array and extends it, with holes if need be, outside.
\<close>

definition js_set :: "'a option list \<Rightarrow> nat \<Rightarrow> 'a \<Rightarrow> 'a option list" where
  "js_set xs i v =
     (if i < length xs then xs[i := Some v]
      else xs @ replicate (i - length xs) None @ [Some v])"

text \<open>
  \<open>displayLines[i].text = t\<close>. The code only does this to the element it stored at the top
  of the same iteration; on a missing element JavaScript would throw, and the model leaves
  the array as it is.
\<close>

definition set_text :: "dline option list \<Rightarrow> nat \<Rightarrow> jsstring \<Rightarrow> dline option list" where
  "set_text xs i t =
     (if i < length xs then xs[i := map_option (\<lambda>d. d\<lparr>ltext := t\<rparr>) (xs ! i)] else xs)"

section \<open>Configuration, display state, frames\<close>

text \<open>
  The fields of \<open>config\<close> that sizing, classification and painting of text read. Numbers
  are rationals; the arithmetic of sizing and of the encoder's delays rounds each result
  to a double, as the code does (\<open>fl\<close> below). The theme (colours) and the
  font family are not modelled; text measurement is a parameter
  \<open>measureText fontSizePx text\<close>, the width \<open>ctx.measureText(text).width\<close> reports under the
  configured font at that size.
\<close>

record config =
  fontSize :: rat
  padding :: rat
  lineHeight :: rat
  showTitle :: bool
  promptText :: jsstring
  outputMode :: outputMode

text \<open>
  The display state handed to \<open>createTerminalCanvas\<close>: \<open>{ lines, showCursor,
  cursorLineIndex }\<close>. The defaults of \<open>drawTerminal\<close> (\<open>showCursor = false\<close>,
  \<open>cursorLineIndex = -1\<close>) both mean that no cursor is drawn, which \<open>showCursor = False\<close>
  expresses.
\<close>

record displayState =
  lines :: "dline option list"
  showCursor :: bool
  cursorLineIndex :: nat

text \<open>
  A frame \<open>{ canvas, delay }\<close>. The canvas is a function of the arguments
  \<open>createTerminalCanvas\<close> is called with, so it is kept as these arguments: the adjusted
  configuration, the display state and the fixed size; \<open>createTerminalCanvas\<close> below paints
  it.
\<close>

record frame =
  fconfig :: config
  fstate :: displayState
  fixedWidth :: rat
  fixedHeight :: rat
  delay :: rat

record options =
  targetFrameCount :: nat
  typingSpeed :: rat
  targetWidth :: "rat option"
  targetHeight :: "rat option"

text \<open>The defaults of the destructured \<open>options\<close> of \<open>generateAnimationFrames\<close>.\<close>

definition defaultOptions :: options where
  "defaultOptions =
     \<lparr>targetFrameCount = 40, typingSpeed = 50, targetWidth = None, targetHeight = None\<rparr>"

section \<open>Double-precision arithmetic\<close>

text \<open>
  A JavaScript number is an IEEE 754 double: every arithmetic operation returns the exact
  result rounded to the nearest number with a 53-bit significand, ties to the even one.
  \<open>fl\<close> is that rounding on the rationals (overflow and subnormal numbers are out of
  the range of sizes and delays and are not modelled). \<open>bitlen n\<close> is the number of bits
  of \<open>n\<close>, \<open>binexp x\<close> the exponent \<open>e\<close> with \<open>2^e \<le> |x| < 2^(e+1)\<close>.
\<close>

function bitlen :: "int \<Rightarrow> int" where
  "bitlen n = (if n \<le> 0 then 0 else 1 + bitlen (n div 2))"
  by pat_completeness auto
termination
  by (relation "measure nat") auto

declare bitlen.simps [simp del]

definition pow2 :: "int \<Rightarrow> rat" where
  "pow2 k = (if 0 \<le> k then 2 ^ nat k else 1 / 2 ^ nat (- k))"

definition roundHalfEven :: "rat \<Rightarrow> int" where
  "roundHalfEven q =
     (let f = \<lfloor>q\<rfloor>; r = q - of_int f
      in if r < 1 / 2 then f else if 1 / 2 < r then f + 1 else if even f then f else f + 1)"

definition binexp :: "rat \<Rightarrow> int" where
  "binexp x =
     (let a = \<bar>fst (quotient_of x)\<bar>; b = snd (quotient_of x);
          d = bitlen a - bitlen b
      in if pow2 d \<le> \<bar>x\<bar> then d else d - 1)"

definition fl :: "rat \<Rightarrow> rat" where
  "fl x = (if x = 0 then 0
           else let e = binexp x
                in of_int (roundHalfEven (x / pow2 (e - 52))) * pow2 (e - 52))"

text \<open>The operators \<open>+\<close>, \<open>*\<close> and \<open>/\<close> of JavaScript on numbers.\<close>

definition fadd :: "rat \<Rightarrow> rat \<Rightarrow> rat" where
  "fadd x y = fl (x + y)"

definition fmul :: "rat \<Rightarrow> rat \<Rightarrow> rat" where
  "fmul x y = fl (x * y)"

definition fdiv :: "rat \<Rightarrow> rat \<Rightarrow> rat" where
  "fdiv x y = fl (x / y)"

section \<open>Sizing\<close>

text \<open>\<open>s.split(c)\<close> for a one-unit separator: never empty, \<open>''.split(c)\<close> is \<open>['']\<close>.\<close>

fun split :: "jsstring \<Rightarrow> jschar \<Rightarrow> jsstring list" where
  "split [] c = [[]]"
| "split (x # xs) c =
     (if x = c then [] # split xs c
      else (case split xs c of [] \<Rightarrow> [[x]] | p # ps \<Rightarrow> (x # p) # ps))"

text \<open>The line feed, \<open>'\n'\<close>.\<close>

definition nl :: jschar where
  "nl = 0x0A"

text \<open>
  \<open>calculateCanvasDimensions(config, theme, lines, scale)\<close> on lines
  \<open>{ text, showPrompt }\<close>, given as pairs. A string is truthy when it is not empty.
\<close>

definition calculateCanvasDimensions ::
  "(rat \<Rightarrow> jsstring \<Rightarrow> rat) \<Rightarrow> config \<Rightarrow> (jsstring \<times> bool) list \<Rightarrow> rat \<Rightarrow> rat \<times> rat" where
  "calculateCanvasDimensions measureText cfg lns scale =
     (let fontSize' = fmul (fontSize cfg) scale;
          padding' = fmul (padding cfg) scale;
          lineHeight' = lineHeight cfg;
          titleBarHeight = (if showTitle cfg then fmul 40 scale else 0);
          maxLineWidth = foldl (\<lambda>maxLineWidth line.
              let w0 = (if snd line \<and> promptText cfg \<noteq> []
                        then measureText fontSize' (last (split (promptText cfg) nl)) else 0);
                  lineWidth = fadd w0 (measureText fontSize' (fst line))
              in max maxLineWidth lineWidth) 0 lns;
          contentWidth = fadd (fadd maxLineWidth (fmul padding' 2)) (fmul 40 scale);
          totalWidth = max (fmul 400 scale) contentWidth;
          totalLines = foldl (\<lambda>totalLines line.
              (if snd line \<and> promptText cfg \<noteq> [] \<and> nl \<in> set (promptText cfg)
               then totalLines + (length (split (promptText cfg) nl) - 1) else totalLines) + 1)
              0 lns;
          totalLines' = (if promptText cfg \<noteq> [] \<and> nl \<in> set (promptText cfg)
                         then totalLines + length (split (promptText cfg) nl)
                         else totalLines + 1);
          contentHeight = fadd (fadd (fmul (fmul (of_nat totalLines') fontSize') lineHeight')
                                     (fmul padding' 2))
                               (fmul 20 scale);
          totalHeight = fadd titleBarHeight (max (fmul 100 scale) contentHeight)
      in (totalWidth, totalHeight))"

text \<open>Truthiness of an optional number: \<open>null\<close> and \<open>0\<close> are falsy.\<close>

definition truthy :: "rat option \<Rightarrow> bool" where
  "truthy x = (case x of None \<Rightarrow> False | Some v \<Rightarrow> v \<noteq> 0)"

definition useTargetDimensions :: "options \<Rightarrow> bool" where
  "useTargetDimensions opts = (truthy (targetWidth opts) \<and> truthy (targetHeight opts))"

text \<open>\<open>finalLines\<close>: the entries as \<open>{ text, showPrompt }\<close>.\<close>

definition finalLines :: "entry list \<Rightarrow> (jsstring \<times> bool) list" where
  "finalLines parsedLines = map (\<lambda>l. (etext l, showPrompt l)) parsedLines"

text \<open>
  \<open>fitRatio\<close> of \<open>generateAnimationFrames\<close>, under \<open>useTargetDimensions\<close>: the smaller of
  \<open>canvasWidth / terminalDims.width\<close> and \<open>canvasHeight / terminalDims.height\<close>, with
  \<open>scale = 2\<close>. Both dimensions are at least \<open>200\<close>, so nothing divides by zero.
\<close>

definition fitRatio :: "(rat \<Rightarrow> jsstring \<Rightarrow> rat) \<Rightarrow> entry list \<Rightarrow> config \<Rightarrow> options \<Rightarrow> rat" where
  "fitRatio measureText parsedLines cfg opts =
     (let scale = 2;
          canvasWidth = fmul (the (targetWidth opts)) scale;
          canvasHeight = fmul (the (targetHeight opts)) scale;
          terminalDims = calculateCanvasDimensions measureText cfg (finalLines parsedLines) scale;
          widthRatio = fdiv canvasWidth (fst terminalDims);
          heightRatio = fdiv canvasHeight (snd terminalDims)
      in min widthRatio heightRatio)"

text \<open>
  \<open>adjustedConfig\<close>: the block ``Auto-scale font if content doesn't fit in fixed
  dimensions'', with its comment ``Only scale down, never up - and set minimum font size''.
\<close>

definition adjustedConfig :: "(rat \<Rightarrow> jsstring \<Rightarrow> rat) \<Rightarrow> entry list \<Rightarrow> config \<Rightarrow> options \<Rightarrow> config" where
  "adjustedConfig measureText parsedLines cfg opts =
     (if useTargetDimensions opts then
        (let fitRatio' = fitRatio measureText parsedLines cfg opts in
         if fitRatio' < 1 then
           (let minFontSize = 8;
                newFontSize = max minFontSize (of_int \<lfloor>fmul (fontSize cfg) fitRatio'\<rfloor>);
                newPadding = max 8 (of_int \<lfloor>fmul (padding cfg) fitRatio'\<rfloor>)
            in cfg\<lparr>fontSize := newFontSize, padding := newPadding\<rparr>)
         else cfg)
      else cfg)"

text \<open>\<open>finalCanvasWidth\<close> and \<open>finalCanvasHeight\<close>.\<close>

definition finalCanvasSize :: "(rat \<Rightarrow> jsstring \<Rightarrow> rat) \<Rightarrow> entry list \<Rightarrow> config \<Rightarrow> options \<Rightarrow> rat \<times> rat" where
  "finalCanvasSize measureText parsedLines cfg opts =
     (if useTargetDimensions opts
      then (fmul (the (targetWidth opts)) 2, fmul (the (targetHeight opts)) 2)
      else calculateCanvasDimensions measureText (adjustedConfig measureText parsedLines cfg opts)
             (finalLines parsedLines) 2)"

section \<open>The frame timeline generator\<close>

text \<open>
  \<open>typedChars\<close>: the \<open>reduce\<close> over the entries that skips the instant ones.
\<close>

definition typedChars :: "outputMode \<Rightarrow> entry list \<Rightarrow> nat" where
  "typedChars om parsedLines =
     foldl (\<lambda>sum l. if shouldBeInstant om l then sum else sum + length (etext l)) 0 parsedLines"

text \<open>
  \<open>charsPerFrame = Math.max(1, Math.ceil(typedChars / targetFrameCount))\<close>. With
  \<open>targetFrameCount = 0\<close> the quotient is \<open>NaN\<close> or \<open>Infinity\<close> and so is
  \<open>charsPerFrame\<close>: \<open>None\<close> here.
\<close>

definition charsPerFrame :: "nat \<Rightarrow> nat \<Rightarrow> nat option" where
  "charsPerFrame tc tfc =
     (if tfc = 0 then None
      else Some (max 1 (nat \<lceil>(of_nat tc :: rat) / of_nat tfc\<rceil>)))"

text \<open>
  \<open>charCounter % charsPerFrame === 0\<close>; for \<open>NaN\<close> and \<open>Infinity\<close> the remainder is
  \<open>NaN\<close> or the positive \<open>charCounter\<close> itself, never \<open>0\<close>.
\<close>

definition frameDue :: "nat \<Rightarrow> nat option \<Rightarrow> bool" where
  "frameDue charCounter cpf = (case cpf of None \<Rightarrow> False | Some k \<Rightarrow> charCounter mod k = 0)"

text \<open>
  \<open>createFrame(lines, cursorLineIndex, delay)\<close>, a closure over \<open>adjustedConfig\<close> and the
  final canvas size. \<open>displayLines.map(l => ({ ...l }))\<close> copies the lines, so a frame keeps
  the lines of the moment it was pushed; holes stay holes.
\<close>

definition createFrame :: "config \<Rightarrow> rat \<times> rat \<Rightarrow> dline option list \<Rightarrow> nat \<Rightarrow> rat \<Rightarrow> frame" where
  "createFrame acfg csize lns cursor d =
     \<lparr>fconfig = acfg,
      fstate = \<lparr>lines = lns, showCursor = True, cursorLineIndex = cursor\<rparr>,
      fixedWidth = fst csize, fixedHeight = snd csize, delay = d\<rparr>"

text \<open>
  The inner \<open>while (batchEndIdx + 1 < parsedLines.length)\<close> loop: it extends the batch over
  the instant lines that follow and stores each of them, complete, in \<open>displayLines\<close>.
\<close>

function batchLoop ::
  "outputMode \<Rightarrow> entry list \<Rightarrow> nat \<Rightarrow> dline option list \<Rightarrow> nat \<times> dline option list" where
  "batchLoop om parsedLines batchEndIdx displayLines =
     (if batchEndIdx + 1 < length parsedLines then
        (let nextLine = parsedLines ! (batchEndIdx + 1);
             nextIsInstant = shouldBeInstant om nextLine
         in if \<not> nextIsInstant then (batchEndIdx, displayLines)
            else batchLoop om parsedLines (batchEndIdx + 1)
                   (js_set displayLines (batchEndIdx + 1)
                      \<lparr>ltext = etext (parsedLines ! (batchEndIdx + 1)),
                       lshowPrompt = showPrompt (parsedLines ! (batchEndIdx + 1))\<rparr>))
      else (batchEndIdx, displayLines))"
  by pat_completeness auto
termination
  by (relation "measure (\<lambda>(om, parsedLines, batchEndIdx, displayLines).
        length parsedLines - batchEndIdx)") auto

declare batchLoop.simps [simp del]

text \<open>
  The \<open>for (let charIdx = 0; charIdx < fullText.length; charIdx++)\<close> loop of a typed line,
  on the state \<open>(displayLines, charCounter, frames)\<close>. In its body \<open>fullText\<close> is not
  empty, so \<open>fullText.length - 1\<close> does not go below zero.
\<close>

function typeLoop ::
  "(dline option list \<Rightarrow> nat \<Rightarrow> rat \<Rightarrow> frame) \<Rightarrow> nat option \<Rightarrow> rat \<Rightarrow> jsstring \<Rightarrow> nat \<Rightarrow> nat \<Rightarrow>
   dline option list \<Rightarrow> nat \<Rightarrow> frame list \<Rightarrow> dline option list \<times> nat \<times> frame list" where
  "typeLoop mk cpf ts fullText lineIdx charIdx displayLines charCounter frames =
     (if charIdx < length fullText then
        (let displayLines' = set_text displayLines lineIdx (take (charIdx + 1) fullText);
             charCounter' = charCounter + 1;
             frames' = (if frameDue charCounter' cpf \<or> charIdx = length fullText - 1
                        then frames @ [mk displayLines' lineIdx (max 30 ts)] else frames)
         in typeLoop mk cpf ts fullText lineIdx (charIdx + 1) displayLines' charCounter' frames')
      else (displayLines, charCounter, frames))"
  by pat_completeness auto
termination
  by (relation "measure (\<lambda>(mk, cpf, ts, fullText, lineIdx, charIdx, displayLines, charCounter,
        frames). length fullText - charIdx)") auto

declare typeLoop.simps [simp del]

text \<open>
  The hold of a batch frame: \<open>Math.min(baseDelay + outputLineCount * perLineDelay, 400)\<close>
  with \<open>baseDelay = 150\<close> and \<open>perLineDelay = Math.min(50, 200 / outputLineCount)\<close>.
\<close>

definition batchDelay :: "nat \<Rightarrow> rat" where
  "batchDelay outputLineCount =
     (let baseDelay = 150;
          perLineDelay = min 50 (200 / of_nat outputLineCount);
          totalDelay = baseDelay + (of_nat outputLineCount * perLineDelay)
      in min totalDelay 400)"

text \<open>
  The main \<open>while (lineIdx < parsedLines.length)\<close> loop, on the state
  \<open>(lineIdx, displayLines, charCounter, frames)\<close>; it returns the final \<open>displayLines\<close>
  and \<open>frames\<close>.
\<close>

function genLoop ::
  "(dline option list \<Rightarrow> nat \<Rightarrow> rat \<Rightarrow> frame) \<Rightarrow> outputMode \<Rightarrow> nat option \<Rightarrow> rat \<Rightarrow> entry list \<Rightarrow>
   nat \<Rightarrow> dline option list \<Rightarrow> nat \<Rightarrow> frame list \<Rightarrow> dline option list \<times> frame list" where
  "genLoop mk om cpf ts parsedLines lineIdx displayLines charCounter frames =
     (if lineIdx < length parsedLines then
        (let lineInfo = parsedLines ! lineIdx;
             fullText = etext lineInfo;
             displayLines0 = js_set displayLines lineIdx
                               \<lparr>ltext = [], lshowPrompt = showPrompt lineInfo\<rparr>
         in if shouldBeInstant om lineInfo then
              (let displayLines1 = set_text displayLines0 lineIdx fullText;
                   batch = batchLoop om parsedLines lineIdx displayLines1;
                   batchEndIdx = fst batch;
                   displayLines2 = snd batch;
                   outputLineCount = batchEndIdx - lineIdx + 1;
                   frames1 = frames @ [mk displayLines2 batchEndIdx (batchDelay outputLineCount)];
                   lineIdx' = batchEndIdx + 1;
                   frames2 = (if lineIdx' < length parsedLines
                              then frames1 @ [mk displayLines2 lineIdx' 150] else frames1)
               in genLoop mk om cpf ts parsedLines lineIdx' displayLines2 charCounter frames2)
            else
              (let typed = typeLoop mk cpf ts fullText lineIdx 0 displayLines0 charCounter frames;
                   displayLines1 = fst typed;
                   charCounter1 = fst (snd typed);
                   frames1 = snd (snd typed);
                   lineIdx' = lineIdx + 1;
                   frames2 = (if lineIdx' < length parsedLines
                              then frames1 @ [mk displayLines1 lineIdx' 150] else frames1)
               in genLoop mk om cpf ts parsedLines lineIdx' displayLines1 charCounter1 frames2))
      else (displayLines, frames))"
  by pat_completeness auto
termination
proof (relation "measure (\<lambda>(mk, om, cpf, ts, parsedLines, lineIdx, displayLines, charCounter,
        frames). length parsedLines - lineIdx)", goal_cases)
  case 1
  show ?case by simp
next
  case (2 mk om cpf ts parsedLines lineIdx displayLines charCounter frames)
  have ge: "b \<le> fst (batchLoop om' es b dl)" for om' es b dl
  proof (induction om' es b dl rule: batchLoop.induct)
    case (1 om' es b dl)
    show ?case
    proof (cases "b + 1 < length es")
      case False
      then show ?thesis
        by (subst batchLoop.simps) simp
    next
      case True
      show ?thesis
      proof (cases "shouldBeInstant om' (es ! (b + 1))")
        case False
        then show ?thesis using True
          by (subst batchLoop.simps) (simp add: Let_def)
      next
        case inst: True
        have "b + 1 \<le> fst (batchLoop om' es (b + 1)
                 (js_set dl (b + 1) \<lparr>ltext = etext (es ! (b + 1)),
                    lshowPrompt = showPrompt (es ! (b + 1))\<rparr>))"
          using "1.IH" [OF True refl refl] inst by simp
        then show ?thesis using True inst
          by (subst batchLoop.simps) (simp add: Let_def)
      qed
    qed
  qed
  show ?case
    using 2 ge [of lineIdx om parsedLines] by (simp add: less_Suc_eq_le diff_less_mono2)
next
  case 3
  then show ?case by simp
qed

declare genLoop.simps [simp del]

text \<open>
  \<open>generateAnimationFrames(parsedLines, config, theme, options)\<close>: the warm-up frame, the
  frames of the main loop, the final frame.
\<close>

definition generateAnimationFrames ::
  "(rat \<Rightarrow> jsstring \<Rightarrow> rat) \<Rightarrow> entry list \<Rightarrow> config \<Rightarrow> options \<Rightarrow> frame list" where
  "generateAnimationFrames measureText parsedLines cfg opts =
     (let om = outputMode cfg;
          acfg = adjustedConfig measureText parsedLines cfg opts;
          csize = finalCanvasSize measureText parsedLines cfg opts;
          cpf = charsPerFrame (typedChars om parsedLines) (targetFrameCount opts);
          mk = createFrame acfg csize;
          frames0 = [mk [] 0 500];
          run = genLoop mk om cpf (typingSpeed opts) parsedLines 0 [] 0 frames0
      in snd run @ [mk (fst run) (length parsedLines) 2000])"

section \<open>The generator's frames in closed form\<close>

text \<open>
  What follows is derived from the loops above, and proved equal to them below
  (\<open>generate_timeline\<close>). \<open>fullLine e\<close> is the fully revealed line of an entry and
  \<open>shown es i\<close> the display lines once the first \<open>i\<close> entries are fully revealed.
\<close>

definition fullLine :: "entry \<Rightarrow> dline option" where
  "fullLine e = Some \<lparr>ltext = etext e, lshowPrompt = showPrompt e\<rparr>"

definition shown :: "entry list \<Rightarrow> nat \<Rightarrow> dline option list" where
  "shown es i = map fullLine (take i es)"

text \<open>The frame between two lines, held 150 ms, if a line follows.\<close>

definition interLine ::
  "(dline option list \<Rightarrow> nat \<Rightarrow> rat \<Rightarrow> frame) \<Rightarrow> entry list \<Rightarrow> nat \<Rightarrow> frame list" where
  "interLine mk es j = (if j < length es then [mk (shown es j) j 150] else [])"

text \<open>The number of consecutive instant entries from index \<open>i\<close> on.\<close>

definition batchLen :: "outputMode \<Rightarrow> entry list \<Rightarrow> nat \<Rightarrow> nat" where
  "batchLen om es i = length (takeWhile (shouldBeInstant om) (drop i es))"

text \<open>The frames a typed line emits, from the state \<open>charIdx\<close>, \<open>charCounter\<close>.\<close>

definition typeFrames ::
  "(dline option list \<Rightarrow> nat \<Rightarrow> rat \<Rightarrow> frame) \<Rightarrow> nat option \<Rightarrow> rat \<Rightarrow> jsstring \<Rightarrow> bool \<Rightarrow>
   dline option list \<Rightarrow> nat \<Rightarrow> nat \<Rightarrow> frame list" where
  "typeFrames mk cpf ts fullText sp pre charIdx charCounter =
     map (\<lambda>k. mk (pre @ [Some \<lparr>ltext = take k fullText, lshowPrompt = sp\<rparr>]) (length pre)
                 (max 30 ts))
       (filter (\<lambda>k. frameDue (charCounter + (k - charIdx)) cpf \<or> k = length fullText)
          [Suc charIdx ..< Suc (length fullText)])"

text \<open>The frames the main loop adds from line \<open>i\<close> and character count \<open>cc\<close> on.\<close>

function timeline ::
  "(dline option list \<Rightarrow> nat \<Rightarrow> rat \<Rightarrow> frame) \<Rightarrow> outputMode \<Rightarrow> nat option \<Rightarrow> rat \<Rightarrow> entry list \<Rightarrow>
   nat \<Rightarrow> nat \<Rightarrow> frame list" where
  "timeline mk om cpf ts es i cc =
     (if i < length es then
        (if shouldBeInstant om (es ! i) then
           mk (shown es (i + batchLen om es i)) (i + batchLen om es i - 1)
              (batchDelay (batchLen om es i))
           # interLine mk es (i + batchLen om es i)
           @ timeline mk om cpf ts es (i + batchLen om es i) cc
         else
           typeFrames mk cpf ts (etext (es ! i)) (showPrompt (es ! i)) (shown es i) 0 cc
           @ interLine mk es (Suc i)
           @ timeline mk om cpf ts es (Suc i) (cc + length (etext (es ! i))))
      else [])"
  by pat_completeness auto
termination
proof (relation "measure (\<lambda>(mk, om, cpf, ts, es, i, cc). length es - i)", goal_cases)
  case 1
  show ?case by simp
next
  case (2 mk om cpf ts es i cc)
  then have "batchLen om es i = Suc (length (takeWhile (shouldBeInstant om) (drop (Suc i) es)))"
    by (simp add: batchLen_def Cons_nth_drop_Suc [symmetric])
  then show ?case using 2 by simp
next
  case 3
  then show ?case by simp
qed

declare timeline.simps [simp del]

section \<open>Revealed text\<close>

text \<open>
  The text of line \<open>i\<close> that a list of display lines, or a frame, shows: nothing for a line
  that is not there yet. \<open>revLe a b\<close>: every line shows in \<open>a\<close> a prefix of what it shows in
  \<open>b\<close>.
\<close>

definition revealedIn :: "dline option list \<Rightarrow> nat \<Rightarrow> jsstring" where
  "revealedIn lns i =
     (if i < length lns then (case lns ! i of None \<Rightarrow> [] | Some d \<Rightarrow> ltext d) else [])"

definition revealed :: "frame \<Rightarrow> nat \<Rightarrow> jsstring" where
  "revealed f i = revealedIn (lines (fstate f)) i"

definition revLe :: "dline option list \<Rightarrow> dline option list \<Rightarrow> bool" where
  "revLe a b = (\<forall>i. prefix (revealedIn a i) (revealedIn b i))"

section \<open>The incremental animation driver\<close>

text \<open>
  \<open>useMultiLineTyping(lines, speed, lineDelay, enabled, { outputMode, lineInfo })\<close>. A
  displayed line of the hook is \<open>{ text, complete }\<close>.
\<close>

record tline =
  ttext :: jsstring
  complete :: bool

text \<open>
  The hook's React state (\<open>displayedLines\<close>, \<open>isComplete\<close>, \<open>currentLineIndex\<close>) together
  with the variables of the effect's closure (\<open>lineIdx\<close>, \<open>charIdx\<close>, \<open>lastTime\<close>,
  \<open>waitingForNextLine\<close>, \<open>waitStartTime\<close>). \<open>scheduled\<close> says that \<open>animationRef\<close> holds a
  pending \<open>requestAnimationFrame\<close> callback. State updates are applied at once; timestamps,
  \<open>speed\<close> and \<open>lineDelay\<close> are exact rationals.
\<close>

record driver =
  d_lineIdx :: nat
  d_charIdx :: nat
  lastTime :: rat
  waitingForNextLine :: bool
  waitStartTime :: rat
  displayedLines :: "tline option list"
  isComplete :: bool
  currentLineIndex :: nat
  scheduled :: bool

text \<open>
  \<open>shouldTypeLine(idx)\<close>: outside instant mode every line is typed; in instant mode only
  the lines with a prompt are. It does not read the \<open>instant\<close> field.
\<close>

definition shouldTypeLine :: "outputMode \<Rightarrow> entry list option \<Rightarrow> nat \<Rightarrow> bool" where
  "shouldTypeLine om lineInfo idx =
     (if om \<noteq> InstantMode then True
      else (case lineInfo of
              None \<Rightarrow> True
            | Some li \<Rightarrow> if idx < length li then showPrompt (li ! idx) else True))"

text \<open>
  The end of a line in \<open>animate\<close>, written twice there: wait for the next line if there is
  one, else complete. It is reached with \<open>lineIdx < lines.length\<close>.
\<close>

definition lineDone :: "jsstring list \<Rightarrow> rat \<Rightarrow> driver \<Rightarrow> driver" where
  "lineDone lns timestamp s =
     (if d_lineIdx s < length lns - 1
      then s\<lparr>waitingForNextLine := True, waitStartTime := timestamp, scheduled := True\<rparr>
      else s\<lparr>isComplete := True, scheduled := False\<rparr>)"

text \<open>One call of \<open>animate(timestamp)\<close>.\<close>

definition animate ::
  "jsstring list \<Rightarrow> rat \<Rightarrow> rat \<Rightarrow> outputMode \<Rightarrow> entry list option \<Rightarrow> rat \<Rightarrow> driver \<Rightarrow> driver" where
  "animate lns speed lineDelay om lineInfo timestamp s0 =
     (let s = (if lastTime s0 = 0 then s0\<lparr>lastTime := timestamp\<rparr> else s0);
          elapsed = timestamp - lastTime s
      in if waitingForNextLine s then
           (if timestamp - waitStartTime s \<ge> lineDelay
            then s\<lparr>waitingForNextLine := False, d_lineIdx := d_lineIdx s + 1, d_charIdx := 0,
                   currentLineIndex := d_lineIdx s + 1, lastTime := timestamp,
                   scheduled := True\<rparr>
            else s\<lparr>scheduled := True\<rparr>)
         else if d_lineIdx s \<ge> length lns then s\<lparr>isComplete := True, scheduled := False\<rparr>
         else
           (let currentLine = lns ! d_lineIdx s;
                typeThisLine = shouldTypeLine om lineInfo (d_lineIdx s)
            in if \<not> typeThisLine then
                 lineDone lns timestamp
                   (s\<lparr>displayedLines := js_set (displayedLines s) (d_lineIdx s)
                        \<lparr>ttext = currentLine, complete = True\<rparr>\<rparr>)
               else if elapsed < speed then s\<lparr>scheduled := True\<rparr>
               else
                 (let s1 = s\<lparr>lastTime := timestamp\<rparr>
                  in if d_charIdx s1 < length currentLine then
                       s1\<lparr>d_charIdx := d_charIdx s1 + 1,
                          displayedLines := js_set (displayedLines s1) (d_lineIdx s1)
                            \<lparr>ttext = take (d_charIdx s1 + 1) currentLine, complete = False\<rparr>,
                          scheduled := True\<rparr>
                     else
                       lineDone lns timestamp
                         (s1\<lparr>displayedLines := js_set (displayedLines s1) (d_lineIdx s1)
                               \<lparr>ttext = currentLine, complete = True\<rparr>\<rparr>))))"

text \<open>
  The state after the effect has run on a freshly mounted hook: with \<open>enabled\<close> false or no
  lines it completes at once; otherwise it resets and schedules \<open>animate\<close>.
\<close>

definition startDriver :: "jsstring list \<Rightarrow> bool \<Rightarrow> driver" where
  "startDriver lns enabled =
     \<lparr>d_lineIdx = 0, d_charIdx = 0, lastTime = 0, waitingForNextLine = False,
      waitStartTime = 0, displayedLines = [],
      isComplete = (\<not> enabled \<or> lns = []), currentLineIndex = 0,
      scheduled = (enabled \<and> lns \<noteq> [])\<rparr>"

text \<open>
  The driver under the timestamps the browser delivers, one per animation frame, for as
  long as a callback is scheduled.
\<close>

fun runDriver ::
  "jsstring list \<Rightarrow> rat \<Rightarrow> rat \<Rightarrow> outputMode \<Rightarrow> entry list option \<Rightarrow> driver \<Rightarrow> rat list \<Rightarrow> driver" where
  "runDriver lns speed lineDelay om lineInfo s [] = s"
| "runDriver lns speed lineDelay om lineInfo s (t # ts) =
     (if scheduled s
      then runDriver lns speed lineDelay om lineInfo (animate lns speed lineDelay om lineInfo t s) ts
      else s)"

text \<open>\<open>skipToEnd\<close>: the sibling path to the terminal state.\<close>

definition skipToEnd :: "jsstring list \<Rightarrow> driver \<Rightarrow> driver" where
  "skipToEnd lns s =
     s\<lparr>displayedLines := map (\<lambda>line. Some \<lparr>ttext = line, complete = True\<rparr>) lns,
       currentLineIndex := length lns, isComplete := True, scheduled := False\<rparr>"

text \<open>
  \<open>Terminal\<close> calls the hook with the texts of the parsed entries as \<open>lines\<close> and the
  entries themselves as \<open>lineInfo\<close>.
\<close>

definition lineTexts :: "entry list \<Rightarrow> jsstring list" where
  "lineTexts parsedLineInfo = map etext parsedLineInfo"

text \<open>
  For the proofs: the first \<open>k\<close> lines, complete, and the invariant of the driver while it
  runs on a non-empty script.
\<close>

definition doneLines :: "jsstring list \<Rightarrow> nat \<Rightarrow> tline option list" where
  "doneLines lns k = map (\<lambda>line. Some \<lparr>ttext = line, complete = True\<rparr>) (take k lns)"

definition driverInv :: "jsstring list \<Rightarrow> driver \<Rightarrow> bool" where
  "driverInv lns s =
     (d_lineIdx s < length lns
      \<and> currentLineIndex s = d_lineIdx s
      \<and> take (d_lineIdx s) (displayedLines s) = doneLines lns (d_lineIdx s)
      \<and> length (displayedLines s) \<le> d_lineIdx s + 1
      \<and> (waitingForNextLine s \<longrightarrow>
            d_lineIdx s + 1 < length lns \<and> \<not> isComplete s
            \<and> displayedLines s = doneLines lns (d_lineIdx s + 1))
      \<and> (isComplete s \<longrightarrow>
            d_lineIdx s + 1 = length lns \<and> \<not> scheduled s
            \<and> displayedLines s = doneLines lns (length lns)))"

section \<open>The frame painter of the export path\<close>

datatype jserror = TypeError | NoFrames

text \<open>
  What \<open>drawTerminal\<close> paints for the lines, in paint order: a prompt segment, a line's
  text, the cursor glyph on the display line of the given index (\<open>drawCursor\<close> inside the
  loop), the cursor glyph on the new line after the last one (\<open>drawCursor\<close> after the
  loop). Coordinates, colours, the window and its title bar are not modelled.
\<close>

datatype paintop = FillPrompt jsstring | FillText jsstring | DrawCursor nat | DrawEndCursor

text \<open>The prompt: all segments but the last on lines of their own, then the last.\<close>

definition drawPrompt :: "config \<Rightarrow> paintop list" where
  "drawPrompt cfg =
     (if promptText cfg \<noteq> [] then
        (let promptParts = split (promptText cfg) nl in
         if length promptParts > 1
         then map FillPrompt (butlast promptParts) @ [FillPrompt (last promptParts)]
         else [FillPrompt (promptText cfg)])
      else [])"

text \<open>
  The loop \<open>for (let lineIdx = 0; lineIdx < lines.length; lineIdx++)\<close>, from \<open>lineIdx\<close> on.
  Reading \<open>line.showPrompt\<close> of a hole throws a TypeError.
\<close>

fun drawLines :: "config \<Rightarrow> bool \<Rightarrow> nat \<Rightarrow> nat \<Rightarrow> dline option list \<Rightarrow> jserror + paintop list" where
  "drawLines cfg sc cur lineIdx [] = Inr []"
| "drawLines cfg sc cur lineIdx (None # ls) = Inl TypeError"
| "drawLines cfg sc cur lineIdx (Some line # ls) =
     (case drawLines cfg sc cur (lineIdx + 1) ls of
        Inl e \<Rightarrow> Inl e
      | Inr ops \<Rightarrow>
          Inr ((if lshowPrompt line \<and> promptText cfg \<noteq> [] then drawPrompt cfg else [])
               @ [FillText (ltext line)]
               @ (if sc \<and> cur = lineIdx then [DrawCursor lineIdx] else [])
               @ ops))"

definition drawTerminal :: "config \<Rightarrow> displayState \<Rightarrow> jserror + paintop list" where
  "drawTerminal cfg ds =
     (case drawLines cfg (showCursor ds) (cursorLineIndex ds) 0 (lines ds) of
        Inl e \<Rightarrow> Inl e
      | Inr ops \<Rightarrow>
          Inr (ops @ (if showCursor ds \<and> cursorLineIndex ds \<ge> length (lines ds)
                      then drawPrompt cfg @ [DrawEndCursor] else [])))"

record canvas =
  cwidth :: rat
  cheight :: rat
  painted :: "paintop list"

text \<open>
  \<open>createTerminalCanvas(config, theme, displayState, { scale, fixedWidth, fixedHeight })\<close>.
  Without fixed dimensions the size is computed from the lines, which throws on a hole.
\<close>

definition createTerminalCanvas ::
  "(rat \<Rightarrow> jsstring \<Rightarrow> rat) \<Rightarrow> config \<Rightarrow> displayState \<Rightarrow> rat \<Rightarrow> rat option \<Rightarrow> rat option \<Rightarrow>
   jserror + canvas" where
  "createTerminalCanvas measureText cfg ds scale fw fh =
     (if truthy fw \<and> truthy fh then
        (case drawTerminal cfg ds of
           Inl e \<Rightarrow> Inl e
         | Inr ops \<Rightarrow> Inr \<lparr>cwidth = the fw, cheight = the fh, painted = ops\<rparr>)
      else if None \<in> set (lines ds) then Inl TypeError
      else
        (let dims = calculateCanvasDimensions measureText cfg
                      (map (\<lambda>l. (ltext (the l), lshowPrompt (the l))) (lines ds)) scale
         in case drawTerminal cfg ds of
              Inl e \<Rightarrow> Inl e
            | Inr ops \<Rightarrow> Inr \<lparr>cwidth = fst dims, cheight = snd dims, painted = ops\<rparr>))"

text \<open>The canvas of a frame: \<open>createFrame\<close> paints with \<open>scale = 2\<close> and the fixed size.\<close>

definition frameCanvas :: "(rat \<Rightarrow> jsstring \<Rightarrow> rat) \<Rightarrow> frame \<Rightarrow> jserror + canvas" where
  "frameCanvas measureText f =
     createTerminalCanvas measureText (fconfig f) (fstate f) 2
       (Some (fixedWidth f)) (Some (fixedHeight f))"

section \<open>The GIF encoder\<close>

text \<open>\<open>Math.round\<close>: the nearest integer, a half rounded up.\<close>

definition js_round :: "rat \<Rightarrow> int" where
  "js_round x = \<lfloor>x + 1 / 2\<rfloor>"

text \<open>
  The \<open>delay\<close> option \<open>createGIF\<close> hands to \<open>gif.writeFrame\<close> for a frame:
  \<open>Math.max(2, Math.round(frame.delay / 10))\<close>, which the code's comment calls
  centiseconds.
\<close>

definition delayOption :: "frame \<Rightarrow> int" where
  "delayOption frame = max 2 (js_round (fdiv (delay frame) 10))"

text \<open>
  The encoder library \<open>gifenc\<close> is not part of this repository. Its \<open>writeFrame\<close> takes the
  \<open>delay\<close> option in milliseconds and stores \<open>Math.round(delay / 10)\<close> in the frame's
  delay field, whose unit is the centisecond.
\<close>

definition writtenDelay :: "int \<Rightarrow> int" where
  "writtenDelay delayMs = js_round (fdiv (of_int delayMs) 10)"

text \<open>
  \<open>createGIF(frames)\<close>, as the delay fields (in centiseconds) of the frames of the GIF it
  returns; no frames is an error. Pixels and palettes are not modelled.
\<close>

definition createGIF :: "frame list \<Rightarrow> jserror + int list" where
  "createGIF frames =
     (if frames = [] then Inl NoFrames
      else Inr (map (\<lambda>frame. writtenDelay (delayOption frame)) frames))"

section \<open>Sample inputs\<close>

text \<open>A monospace measurement: every code unit is 0.6 of the font size wide.\<close>

definition monoMeasure :: "rat \<Rightarrow> jsstring \<Rightarrow> rat" where
  "monoMeasure px t = px * of_nat (length t) * 3 / 5"

definition sampleConfig :: config where
  "sampleConfig =
     \<lparr>fontSize = 14, padding = 16, lineHeight = 3 / 2, showTitle = True,
      promptText = js ''$ '', outputMode = Typing\<rparr>"

section \<open>The parser: lemmas\<close>

lemma parseStep_snd_result:
  "snd (parseStep (r, b) l) = snd (parseStep ([], b) l)"
  by (simp add: parseStep_def Let_def)

lemma parseStep_fst_result:
  "fst (parseStep (r, b) l) = r @ fst (parseStep ([], b) l)"
  by (simp add: parseStep_def Let_def)

lemma foldl_parseStep_acc:
  "foldl parseStep (r, b) ls = (r @ fst (foldl parseStep ([], b) ls), snd (foldl parseStep ([], b) ls))"
proof (induction ls arbitrary: r b)
  case Nil
  show ?case by simp
next
  case (Cons l ls)
  obtain r1 b1 where s1: "parseStep ([], b) l = (r1, b1)"
    by (cases "parseStep ([], b) l")
  have s2: "parseStep (r, b) l = (r @ r1, b1)"
    using parseStep_fst_result [of r b l] parseStep_snd_result [of r b l] s1
    by (cases "parseStep (r, b) l") simp
  show ?case
    using Cons.IH [of "r @ r1" b1] Cons.IH [of r1 b1] s1 s2 by simp
qed

lemma parseFrom_Nil: "parseFrom b [] = []"
  by (simp add: parseFrom_def)

lemma parseFrom_Cons:
  "parseFrom b (l # ls) =
     fst (parseStep ([], b) l) @ parseFrom (snd (parseStep ([], b) l)) ls"
proof -
  obtain r1 b1 where s1: "parseStep ([], b) l = (r1, b1)"
    by (cases "parseStep ([], b) l")
  show ?thesis
    using foldl_parseStep_acc [of r1 b1 ls] s1 by (simp add: parseFrom_def)
qed

lemma parseFrom_marker:
  "trim l = js ''!!'' \<Longrightarrow> parseFrom b (l # ls) = parseFrom (\<not> b) ls"
  by (simp add: parseFrom_Cons parseStep_def Let_def)

lemma parseFrom_command:
  "trim l \<noteq> js ''!!'' \<Longrightarrow> startsWith (trimStart l) (js ''>'') \<Longrightarrow>
   parseFrom b (l # ls) =
     \<lparr>etype = Command, etext = trimStart (slice1 (trimStart l)), showPrompt = True,
      instant = False\<rparr> # parseFrom b ls"
  by (simp add: parseFrom_Cons parseStep_def Let_def)

lemma parseFrom_output:
  "trim l \<noteq> js ''!!'' \<Longrightarrow> \<not> startsWith (trimStart l) (js ''>'') \<Longrightarrow>
   parseFrom b (l # ls) =
     \<lparr>etype = Output, etext = l, showPrompt = False, instant = b\<rparr> # parseFrom b ls"
  by (simp add: parseFrom_Cons parseStep_def Let_def)

lemma parseFrom_command_shape:
  "e \<in> set (parseFrom b ls) \<Longrightarrow> etype e = Command \<Longrightarrow> showPrompt e \<and> \<not> instant e"
proof (induction ls arbitrary: b)
  case Nil
  then show ?case by (simp add: parseFrom_Nil)
next
  case (Cons l ls)
  show ?case
  proof (cases "trim l = js ''!!''")
    case True
    then show ?thesis using Cons by (simp add: parseFrom_marker)
  next
    case False
    show ?thesis
    proof (cases "startsWith (trimStart l) (js ''>'')")
      case True
      then show ?thesis using Cons \<open>trim l \<noteq> js ''!!''\<close>
        by (auto simp: parseFrom_command)
    next
      case False
      then show ?thesis using Cons \<open>trim l \<noteq> js ''!!''\<close>
        by (auto simp: parseFrom_output)
    qed
  qed
qed

section \<open>The parser: results\<close>

text \<open>
  C6. \<open>parseLines\<close> scans the lines in order with \<open>inInstantBlock\<close> initially false. A line
  whose trimmed content is exactly \<open>!!\<close> toggles the flag and produces no entry; a line whose
  leading-whitespace-stripped content starts with \<open>>\<close> becomes one Command entry, its text
  the rest after the marker with the whitespace that follows the marker stripped, and
  \<open>showPrompt\<close> true; every other line becomes one Output entry with
  \<open>instant = inInstantBlock\<close>; no other line is dropped. On \<open>["> whoami", "root"]\<close> the
  result is the Command \<open>whoami\<close> followed by the Output \<open>root\<close>, both with \<open>instant\<close> false.
\<close>

theorem parseLines_scan:
  "parseLines ls p = parseFrom False ls
   \<and> parseFrom b [] = []
   \<and> (trim l = js ''!!'' \<longrightarrow> parseFrom b (l # ls) = parseFrom (\<not> b) ls)
   \<and> (trim l \<noteq> js ''!!'' \<and> startsWith (trimStart l) (js ''>'') \<longrightarrow>
        (\<exists>e. parseFrom b (l # ls) = e # parseFrom b ls \<and> etype e = Command
           \<and> etext e = trimStart (slice1 (trimStart l)) \<and> showPrompt e))
   \<and> (trim l \<noteq> js ''!!'' \<and> \<not> startsWith (trimStart l) (js ''>'') \<longrightarrow>
        parseFrom b (l # ls) =
          \<lparr>etype = Output, etext = l, showPrompt = False, instant = b\<rparr> # parseFrom b ls)
   \<and> parseLines [js ''> whoami'', js ''root''] p =
        [\<lparr>etype = Command, etext = js ''whoami'', showPrompt = True, instant = False\<rparr>,
         \<lparr>etype = Output, etext = js ''root'', showPrompt = False, instant = False\<rparr>]"
proof -
  have a: "parseLines ls p = parseFrom False ls"
    by (simp add: parseLines_def parseFrom_def)
  have b: "parseLines [js ''> whoami'', js ''root''] p =
        [\<lparr>etype = Command, etext = js ''whoami'', showPrompt = True, instant = False\<rparr>,
         \<lparr>etype = Output, etext = js ''root'', showPrompt = False, instant = False\<rparr>]"
    by code_simp
  have n: "parseFrom b [] = []"
    by (rule parseFrom_Nil)
  have c: "trim l = js ''!!'' \<longrightarrow> parseFrom b (l # ls) = parseFrom (\<not> b) ls"
    by (simp add: parseFrom_marker)
  have d: "trim l \<noteq> js ''!!'' \<and> startsWith (trimStart l) (js ''>'') \<longrightarrow>
        (\<exists>e. parseFrom b (l # ls) = e # parseFrom b ls \<and> etype e = Command
           \<and> etext e = trimStart (slice1 (trimStart l)) \<and> showPrompt e)"
    by (simp add: parseFrom_command)
  have e: "trim l \<noteq> js ''!!'' \<and> \<not> startsWith (trimStart l) (js ''>'') \<longrightarrow>
        parseFrom b (l # ls) =
          \<lparr>etype = Output, etext = l, showPrompt = False, instant = b\<rparr> # parseFrom b ls"
    by (simp add: parseFrom_output)
  show ?thesis
    by (rule conjI [OF a conjI [OF n conjI [OF c conjI [OF d conjI [OF e b]]]]])
qed

theorem parseLines_scan_witness:
  "trim (js ''!!'') = js ''!!''
   \<and> trim (js ''  > ls  -la'') \<noteq> js ''!!'' \<and> startsWith (trimStart (js ''  > ls  -la'')) (js ''>'')
   \<and> trim (js '' a.txt'') \<noteq> js ''!!'' \<and> \<not> startsWith (trimStart (js '' a.txt'')) (js ''>'')
   \<and> (\<exists>e. parseLines [js ''!!'', js ''  > ls  -la'', js '' a.txt''] (js ''$ '') =
          [e, \<lparr>etype = Output, etext = js '' a.txt'', showPrompt = False, instant = True\<rparr>]
        \<and> etype e = Command \<and> etext e = js ''ls  -la'' \<and> showPrompt e)"
proof -
  have t1: "trim (js ''!!'') = js ''!!''"
    by (simp add: js_def trim_def isWhiteSpace_def)
  have t2: "trim (js ''  > ls  -la'') \<noteq> js ''!!'' \<and> startsWith (trimStart (js ''  > ls  -la'')) (js ''>'')"
    by (simp add: js_def trim_def trimStart_def startsWith_def isWhiteSpace_def)
  have t3: "trim (js '' a.txt'') \<noteq> js ''!!'' \<and> \<not> startsWith (trimStart (js '' a.txt'')) (js ''>'')"
    by (simp add: js_def trim_def trimStart_def startsWith_def isWhiteSpace_def)
  have c: "trimStart (slice1 (trimStart (js ''  > ls  -la''))) = js ''ls  -la''"
    by (simp add: js_def trimStart_def slice1_def isWhiteSpace_def)
  have s3: "parseFrom True [js '' a.txt''] =
      [\<lparr>etype = Output, etext = js '' a.txt'', showPrompt = False, instant = True\<rparr>]"
    using parseLines_scan [of "[]" "js ''$ ''" True "js '' a.txt''"] t3 by simp
  obtain e where s2: "parseFrom True [js ''  > ls  -la'', js '' a.txt''] = e # parseFrom True [js '' a.txt'']"
      and e: "etype e = Command" "etext e = js ''ls  -la''" "showPrompt e"
    using parseLines_scan [of "[js '' a.txt'']" "js ''$ ''" True "js ''  > ls  -la''"] t2 c by auto
  have s1: "parseFrom False [js ''!!'', js ''  > ls  -la'', js '' a.txt''] =
      parseFrom True [js ''  > ls  -la'', js '' a.txt'']"
    using parseLines_scan [of "[js ''  > ls  -la'', js '' a.txt'']" "js ''$ ''" False "js ''!!''"] t1
    by simp
  have s0: "parseLines [js ''!!'', js ''  > ls  -la'', js '' a.txt''] (js ''$ '')
      = parseFrom False [js ''!!'', js ''  > ls  -la'', js '' a.txt'']"
    using parseLines_scan [of "[js ''!!'', js ''  > ls  -la'', js '' a.txt'']" "js ''$ ''" False "[]"]
    by simp
  have "parseLines [js ''!!'', js ''  > ls  -la'', js '' a.txt''] (js ''$ '') =
          [e, \<lparr>etype = Output, etext = js '' a.txt'', showPrompt = False, instant = True\<rparr>]"
    using s0 s1 s2 s3 by simp
  then show ?thesis using t1 t2 t3 e by blast
qed

section \<open>The generator: lemmas\<close>

lemma js_set_length: "js_set xs (length xs) v = xs @ [Some v]"
  by (simp add: js_set_def)

lemma set_text_snoc:
  "set_text (xs @ [Some d]) (length xs) t = xs @ [Some (d\<lparr>ltext := t\<rparr>)]"
  by (simp add: set_text_def)

lemma batchLoop_char:
  "b < length es \<Longrightarrow> length dl = Suc b \<Longrightarrow>
   batchLoop om es b dl =
     (b + length (takeWhile (shouldBeInstant om) (drop (Suc b) es)),
      dl @ map fullLine (takeWhile (shouldBeInstant om) (drop (Suc b) es)))"
proof (induction om es b dl rule: batchLoop.induct)
  case (1 om es b dl)
  show ?case
  proof (cases "Suc b < length es")
    case False
    then show ?thesis
      by (subst batchLoop.simps) simp
  next
    case True
    then have d: "drop (Suc b) es = es ! Suc b # drop (Suc (Suc b)) es"
      by (simp add: Cons_nth_drop_Suc)
    show ?thesis
    proof (cases "shouldBeInstant om (es ! Suc b)")
      case False
      then show ?thesis using True d
        by (subst batchLoop.simps) simp
    next
      case inst: True
      have len: "length (js_set dl (b + 1) \<lparr>ltext = etext (es ! (b + 1)),
                       lshowPrompt = showPrompt (es ! (b + 1))\<rparr>) = Suc (b + 1)"
        using "1.prems" by (simp add: js_set_def)
      have ih: "batchLoop om es (b + 1) (js_set dl (b + 1) \<lparr>ltext = etext (es ! (b + 1)),
                       lshowPrompt = showPrompt (es ! (b + 1))\<rparr>) =
          (b + 1 + length (takeWhile (shouldBeInstant om) (drop (Suc (b + 1)) es)),
           js_set dl (b + 1) \<lparr>ltext = etext (es ! (b + 1)),
                       lshowPrompt = showPrompt (es ! (b + 1))\<rparr>
            @ map fullLine (takeWhile (shouldBeInstant om) (drop (Suc (b + 1)) es)))"
        using "1.IH" [OF _ refl refl _ _ len] True inst
        by simp
      have js: "js_set dl (b + 1) \<lparr>ltext = etext (es ! (b + 1)),
                       lshowPrompt = showPrompt (es ! (b + 1))\<rparr> = dl @ [fullLine (es ! Suc b)]"
        using "1.prems" js_set_length [of dl] by (simp add: fullLine_def)
      show ?thesis
        using True inst d ih js
        by (subst batchLoop.simps) simp
    qed
  qed
qed

lemma typeLoop_char:
  "charIdx \<le> length fullText \<Longrightarrow> t0 = take charIdx fullText \<Longrightarrow>
   typeLoop mk cpf ts fullText (length pre) charIdx
       (pre @ [Some \<lparr>ltext = t0, lshowPrompt = sp\<rparr>]) charCounter frames =
     (pre @ [Some \<lparr>ltext = fullText, lshowPrompt = sp\<rparr>],
      charCounter + (length fullText - charIdx),
      frames @ typeFrames mk cpf ts fullText sp pre charIdx charCounter)"
proof (induction "length fullText - charIdx" arbitrary: charIdx t0 charCounter frames)
  case 0
  then show ?case
    by (subst typeLoop.simps) (simp add: typeFrames_def)
next
  case (Suc n)
  then have lt: "charIdx < length fullText" by simp
  let ?dl = "pre @ [Some \<lparr>ltext = take (charIdx + 1) fullText, lshowPrompt = sp\<rparr>]"
  let ?fr = "(if frameDue (charCounter + 1) cpf \<or> charIdx = length fullText - 1
               then frames @ [mk ?dl (length pre) (max 30 ts)] else frames)"
  have ih: "typeLoop mk cpf ts fullText (length pre) (charIdx + 1) ?dl (charCounter + 1) ?fr =
     (pre @ [Some \<lparr>ltext = fullText, lshowPrompt = sp\<rparr>],
      charCounter + 1 + (length fullText - (charIdx + 1)),
      ?fr @ typeFrames mk cpf ts fullText sp pre (charIdx + 1) (charCounter + 1))"
    using Suc.hyps(1) [of "charIdx + 1" "take (charIdx + 1) fullText" "charCounter + 1" ?fr]
      Suc.hyps(2) lt by simp
  have up: "[Suc charIdx ..< Suc (length fullText)] =
      Suc charIdx # [Suc (Suc charIdx) ..< Suc (length fullText)]"
    using lt by (simp add: upt_conv_Cons)
  have flt: "filter (\<lambda>k. frameDue (charCounter + (k - charIdx)) cpf \<or> k = length fullText)
          [Suc (Suc charIdx) ..< Suc (length fullText)] =
        filter (\<lambda>k. frameDue (charCounter + 1 + (k - (charIdx + 1))) cpf \<or> k = length fullText)
          [Suc (Suc charIdx) ..< Suc (length fullText)]"
  proof (rule filter_cong [OF refl])
    fix x assume "x \<in> set [Suc (Suc charIdx) ..< Suc (length fullText)]"
    then have "charCounter + (x - charIdx) = charCounter + 1 + (x - (charIdx + 1))"
      by auto
    then show "(frameDue (charCounter + (x - charIdx)) cpf \<or> x = length fullText) =
        (frameDue (charCounter + 1 + (x - (charIdx + 1))) cpf \<or> x = length fullText)"
      by simp
  qed
  have last: "(charIdx = length fullText - 1) = (Suc charIdx = length fullText)"
    using lt by auto
  have tf: "?fr @ typeFrames mk cpf ts fullText sp pre (charIdx + 1) (charCounter + 1) =
      frames @ typeFrames mk cpf ts fullText sp pre charIdx charCounter"
    unfolding typeFrames_def up using flt last by simp
  have st: "set_text (pre @ [Some \<lparr>ltext = t0, lshowPrompt = sp\<rparr>]) (length pre)
        (take (charIdx + 1) fullText) = ?dl"
    by (simp add: set_text_snoc)
  have ar: "charCounter + 1 + (length fullText - (charIdx + 1)) =
      charCounter + (length fullText - charIdx)"
    using lt by simp
  have "typeLoop mk cpf ts fullText (length pre) charIdx
       (pre @ [Some \<lparr>ltext = t0, lshowPrompt = sp\<rparr>]) charCounter frames =
     typeLoop mk cpf ts fullText (length pre) (charIdx + 1) ?dl (charCounter + 1) ?fr"
    by (subst typeLoop.simps) (simp only: lt if_True Let_def st)
  also have "\<dots> = (pre @ [Some \<lparr>ltext = fullText, lshowPrompt = sp\<rparr>],
      charCounter + 1 + (length fullText - (charIdx + 1)),
      ?fr @ typeFrames mk cpf ts fullText sp pre (charIdx + 1) (charCounter + 1))"
    by (rule ih)
  also have "\<dots> = (pre @ [Some \<lparr>ltext = fullText, lshowPrompt = sp\<rparr>],
      charCounter + (length fullText - charIdx),
      frames @ typeFrames mk cpf ts fullText sp pre charIdx charCounter)"
    by (simp only: tf ar)
  finally show ?case .
qed

lemma length_shown: "i \<le> length es \<Longrightarrow> length (shown es i) = i"
  by (simp add: shown_def)

lemma shown_Suc: "i < length es \<Longrightarrow> shown es (Suc i) = shown es i @ [fullLine (es ! i)]"
  by (simp add: shown_def take_Suc_conv_app_nth)

lemma batchLen_pos:
  "i < length es \<Longrightarrow> shouldBeInstant om (es ! i) \<Longrightarrow>
   batchLen om es i = Suc (length (takeWhile (shouldBeInstant om) (drop (Suc i) es)))"
  by (simp add: batchLen_def Cons_nth_drop_Suc [symmetric])

lemma batchLen_le:
  assumes "i \<le> length es"
  shows "i + batchLen om es i \<le> length es"
proof -
  have "length (takeWhile (shouldBeInstant om) (drop i es)) \<le> length (drop i es)"
    by (rule length_takeWhile_le)
  then show ?thesis using assms by (simp add: batchLen_def)
qed

lemma shown_batch:
  "shown es (i + batchLen om es i) =
   shown es i @ map fullLine (takeWhile (shouldBeInstant om) (drop i es))"
proof -
  have "takeWhile (shouldBeInstant om) (drop i es) = take (batchLen om es i) (drop i es)"
    unfolding batchLen_def by (rule takeWhile_eq_take)
  then show ?thesis
    by (simp add: shown_def take_add)
qed

lemma genLoop_done:
  "\<not> i < length es \<Longrightarrow> genLoop mk om cpf ts es i dl cc frames = (dl, frames)"
  by (subst genLoop.simps) simp

lemma genLoop_typed:
  assumes i: "i < length es" and ni: "\<not> shouldBeInstant om (es ! i)"
  shows "genLoop mk om cpf ts es i (shown es i) cc frames =
     genLoop mk om cpf ts es (Suc i) (shown es (Suc i)) (cc + length (etext (es ! i)))
       ((frames @ typeFrames mk cpf ts (etext (es ! i)) (showPrompt (es ! i)) (shown es i) 0 cc)
          @ interLine mk es (Suc i))"
proof -
  have len: "length (shown es i) = i"
    using i by (simp add: length_shown)
  have s0: "js_set (shown es i) i \<lparr>ltext = [], lshowPrompt = showPrompt (es ! i)\<rparr> =
      shown es i @ [Some \<lparr>ltext = [], lshowPrompt = showPrompt (es ! i)\<rparr>]"
    using js_set_length [of "shown es i"] len by simp
  have tl: "typeLoop mk cpf ts (etext (es ! i)) i 0
       (shown es i @ [Some \<lparr>ltext = [], lshowPrompt = showPrompt (es ! i)\<rparr>]) cc frames =
     (shown es (Suc i), cc + length (etext (es ! i)),
      frames @ typeFrames mk cpf ts (etext (es ! i)) (showPrompt (es ! i)) (shown es i) 0 cc)"
    using typeLoop_char [of 0 "etext (es ! i)" "[]" mk cpf ts "shown es i" "showPrompt (es ! i)" cc frames]
      len i by (simp add: shown_Suc fullLine_def)
  show ?thesis
    by (subst genLoop.simps) (simp add: i ni Let_def s0 tl interLine_def)
qed

lemma genLoop_batch:
  assumes i: "i < length es" and inst: "shouldBeInstant om (es ! i)"
  shows "genLoop mk om cpf ts es i (shown es i) cc frames =
     genLoop mk om cpf ts es (i + batchLen om es i) (shown es (i + batchLen om es i)) cc
       ((frames @ [mk (shown es (i + batchLen om es i)) (i + batchLen om es i - 1)
                     (batchDelay (batchLen om es i))])
          @ interLine mk es (i + batchLen om es i))"
proof -
  let ?tw = "takeWhile (shouldBeInstant om) (drop (Suc i) es)"
  have len: "length (shown es i) = i"
    using i by (simp add: length_shown)
  have k: "batchLen om es i = Suc (length ?tw)"
    using i inst by (rule batchLen_pos)
  have s0: "js_set (shown es i) i \<lparr>ltext = [], lshowPrompt = showPrompt (es ! i)\<rparr> =
      shown es i @ [Some \<lparr>ltext = [], lshowPrompt = showPrompt (es ! i)\<rparr>]"
    using js_set_length [of "shown es i"] len by simp
  have s1: "set_text (shown es i @ [Some \<lparr>ltext = [], lshowPrompt = showPrompt (es ! i)\<rparr>]) i
       (etext (es ! i)) = shown es (Suc i)"
    using set_text_snoc [of "shown es i"] len i by (simp add: shown_Suc fullLine_def)
  have tw: "takeWhile (shouldBeInstant om) (drop i es) = es ! i # ?tw"
    using i inst by (simp add: Cons_nth_drop_Suc [symmetric])
  have sh: "shown es (Suc (i + length ?tw)) = shown es (Suc i) @ map fullLine ?tw"
    using shown_batch [of es i om] tw i k by (simp add: shown_Suc)
  have bl: "batchLoop om es i (shown es (Suc i)) =
      (i + length ?tw, shown es (Suc (i + length ?tw)))"
    using batchLoop_char [of i es "shown es (Suc i)" om] i sh
    by (simp add: length_shown)
  show ?thesis
    unfolding k
    by (subst genLoop.simps) (simp add: i inst Let_def s0 s1 bl interLine_def)
qed

lemma timeline_done: "\<not> i < length es \<Longrightarrow> timeline mk om cpf ts es i cc = []"
  by (subst timeline.simps) simp

lemma timeline_batch:
  "i < length es \<Longrightarrow> shouldBeInstant om (es ! i) \<Longrightarrow>
   timeline mk om cpf ts es i cc =
     mk (shown es (i + batchLen om es i)) (i + batchLen om es i - 1)
        (batchDelay (batchLen om es i))
     # interLine mk es (i + batchLen om es i)
     @ timeline mk om cpf ts es (i + batchLen om es i) cc"
  by (subst timeline.simps) simp

lemma timeline_typed:
  "i < length es \<Longrightarrow> \<not> shouldBeInstant om (es ! i) \<Longrightarrow>
   timeline mk om cpf ts es i cc =
     typeFrames mk cpf ts (etext (es ! i)) (showPrompt (es ! i)) (shown es i) 0 cc
     @ interLine mk es (Suc i)
     @ timeline mk om cpf ts es (Suc i) (cc + length (etext (es ! i)))"
  by (subst timeline.simps) simp

lemma genLoop_timeline:
  "i \<le> length es \<Longrightarrow>
   genLoop mk om cpf ts es i (shown es i) cc frames =
     (shown es (length es), frames @ timeline mk om cpf ts es i cc)"
proof (induction mk om cpf ts es i cc arbitrary: frames rule: timeline.induct)
  case (1 mk om cpf ts es i cc)
  show ?case
  proof (cases "i < length es")
    case False
    then have "i = length es" using "1.prems" by simp
    then show ?thesis
      by (simp add: genLoop_done timeline_done)
  next
    case True
    show ?thesis
    proof (cases "shouldBeInstant om (es ! i)")
      case inst: True
      have le: "i + batchLen om es i \<le> length es"
        using "1.prems" by (rule batchLen_le)
      show ?thesis
        using "1.IH"(1) [OF True inst le] True inst
        by (simp add: genLoop_batch timeline_batch)
    next
      case False
      show ?thesis
        using "1.IH"(2) [OF True False] True False
        by (simp add: genLoop_typed timeline_typed)
    qed
  qed
qed

lemma generate_timeline:
  "generateAnimationFrames measureText es cfg opts =
     createFrame (adjustedConfig measureText es cfg opts) (finalCanvasSize measureText es cfg opts)
        [] 0 500
     # timeline (createFrame (adjustedConfig measureText es cfg opts)
                   (finalCanvasSize measureText es cfg opts))
         (outputMode cfg) (charsPerFrame (typedChars (outputMode cfg) es) (targetFrameCount opts))
         (typingSpeed opts) es 0 0
     @ [createFrame (adjustedConfig measureText es cfg opts)
          (finalCanvasSize measureText es cfg opts) (shown es (length es)) (length es) 2000]"
  using genLoop_timeline [of 0 es]
  by (simp add: generateAnimationFrames_def Let_def shown_def)


lemma timeline_made:
  "f \<in> set (timeline mk om cpf ts es i cc) \<Longrightarrow> \<exists>l c d. f = mk l c d"
proof (induction mk om cpf ts es i cc rule: timeline.induct)
  case (1 mk om cpf ts es i cc)
  show ?case
  proof (cases "i < length es")
    case False
    then show ?thesis using "1.prems" by (simp add: timeline_done)
  next
    case True
    show ?thesis
    proof (cases "shouldBeInstant om (es ! i)")
      case inst: True
      then show ?thesis
        using "1.prems" "1.IH"(1) [OF True inst] True
        by (auto simp: timeline_batch interLine_def split: if_splits)
    next
      case False
      then show ?thesis
        using "1.prems" "1.IH"(2) [OF True False] True
        by (auto simp: timeline_typed interLine_def typeFrames_def split: if_splits)
    qed
  qed
qed

lemma generate_fconfig:
  assumes "f \<in> set (generateAnimationFrames measureText es cfg opts)"
  shows "fconfig f = adjustedConfig measureText es cfg opts"
proof -
  let ?mk = "createFrame (adjustedConfig measureText es cfg opts)
      (finalCanvasSize measureText es cfg opts)"
  have "\<exists>l c d. f = ?mk l c d"
    using assms timeline_made [of f ?mk] by (auto simp: generate_timeline)
  then show ?thesis by (auto simp: createFrame_def)
qed

lemma revLe_refl: "revLe a a"
  by (simp add: revLe_def)

lemma revLe_trans: "revLe a b \<Longrightarrow> revLe b c \<Longrightarrow> revLe a c"
  unfolding revLe_def by (meson prefix_order.order_trans)

lemma revLe_Nil: "revLe [] a"
  by (simp add: revLe_def revealedIn_def)

lemma revealedIn_shown:
  "j \<le> length es \<Longrightarrow> revealedIn (shown es j) i = (if i < j then etext (es ! i) else [])"
  by (simp add: revealedIn_def shown_def fullLine_def)

lemma revealedIn_part:
  "j \<le> length es \<Longrightarrow>
   revealedIn (shown es j @ [Some \<lparr>ltext = t, lshowPrompt = sp\<rparr>]) i =
     (if i < j then etext (es ! i) else if i = j then t else [])"
  by (simp add: revealedIn_def shown_def fullLine_def nth_append)

lemma revLe_shown: "j \<le> j' \<Longrightarrow> j' \<le> length es \<Longrightarrow> revLe (shown es j) (shown es j')"
  by (simp add: revLe_def revealedIn_shown)

lemma revLe_shown_part:
  "j \<le> length es \<Longrightarrow> revLe (shown es j) (shown es j @ [Some \<lparr>ltext = t, lshowPrompt = sp\<rparr>])"
  by (simp add: revLe_def revealedIn_shown revealedIn_part)

lemma revLe_part_shown:
  "j < length es \<Longrightarrow>
   revLe (shown es j @ [Some \<lparr>ltext = take k (etext (es ! j)), lshowPrompt = sp\<rparr>])
     (shown es (Suc j))"
  by (auto simp: revLe_def revealedIn_shown revealedIn_part take_is_prefix less_Suc_eq)

lemma prefix_take_take: "k \<le> k' \<Longrightarrow> prefix (take k t) (take k' t)"
proof -
  assume "k \<le> k'"
  then have "take k t = take k (take k' t)" by (simp add: min_def)
  then show ?thesis by (metis take_is_prefix)
qed

lemma revLe_part_part:
  "j \<le> length es \<Longrightarrow> k \<le> k' \<Longrightarrow>
   revLe (shown es j @ [Some \<lparr>ltext = take k t, lshowPrompt = sp\<rparr>])
     (shown es j @ [Some \<lparr>ltext = take k' t, lshowPrompt = sp\<rparr>])"
  by (simp add: revLe_def revealedIn_part prefix_take_take)

lemma typeFrames_lines:
  "f \<in> set (typeFrames (createFrame acfg sz) cpf ts t sp pre c0 cc) \<Longrightarrow>
   \<exists>k. lines (fstate f) = pre @ [Some \<lparr>ltext = take k t, lshowPrompt = sp\<rparr>]"
proof -
  assume "f \<in> set (typeFrames (createFrame acfg sz) cpf ts t sp pre c0 cc)"
  then obtain k where "f = createFrame acfg sz
      (pre @ [Some \<lparr>ltext = take k t, lshowPrompt = sp\<rparr>]) (length pre) (max 30 ts)"
    unfolding typeFrames_def by auto
  then have "lines (fstate f) = pre @ [Some \<lparr>ltext = take k t, lshowPrompt = sp\<rparr>]"
    by (simp add: createFrame_def)
  then show ?thesis by blast
qed

lemma typeFrames_sorted:
  "j \<le> length es \<Longrightarrow>
   sorted_wrt (\<lambda>f g. revLe (lines (fstate f)) (lines (fstate g)))
     (typeFrames (createFrame acfg sz) cpf ts t sp (shown es j) c0 cc)"
proof -
  assume j: "j \<le> length es"
  let ?P = "\<lambda>k. frameDue (cc + (k - c0)) cpf \<or> k = length t"
  let ?g = "\<lambda>k. createFrame acfg sz (shown es j @ [Some \<lparr>ltext = take k t, lshowPrompt = sp\<rparr>])
                 (length (shown es j)) (max 30 ts)"
  have "sorted_wrt (<) (filter ?P [Suc c0 ..< Suc (length t)])"
    by (rule sorted_wrt_filter) (simp del: upt_Suc)
  then have "sorted_wrt (\<lambda>a b. revLe (lines (fstate (?g a))) (lines (fstate (?g b))))
      (filter ?P [Suc c0 ..< Suc (length t)])"
    by (rule sorted_wrt_mono_rel [rotated]) (simp add: createFrame_def revLe_part_part j)
  then show ?thesis
    by (simp add: typeFrames_def sorted_wrt_map)
qed

lemma timeline_sorted:
  "i \<le> length es \<Longrightarrow>
   sorted_wrt (\<lambda>f g. revLe (lines (fstate f)) (lines (fstate g)))
     (timeline (createFrame acfg sz) om cpf ts es i cc)
   \<and> (\<forall>f \<in> set (timeline (createFrame acfg sz) om cpf ts es i cc).
        revLe (shown es i) (lines (fstate f))
        \<and> revLe (lines (fstate f)) (shown es (length es)))"
proof (induction "createFrame acfg sz" om cpf ts es i cc rule: timeline.induct)
  case (1 om cpf ts es i cc)
  let ?mk = "createFrame acfg sz"
  let ?R = "\<lambda>f g. revLe (lines (fstate f)) (lines (fstate g))"
  show ?case
  proof (cases "i < length es")
    case False
    then show ?thesis by (simp add: timeline_done)
  next
    case True
    show ?thesis
    proof (cases "shouldBeInstant om (es ! i)")
      case inst: True
      let ?k = "batchLen om es i"
      have le: "i + ?k \<le> length es"
        using "1.prems" by (rule batchLen_le)
      note ih = "1.hyps"(1) [OF True inst le]
      have low: "revLe (shown es i) (shown es (i + ?k))"
        using le by (simp add: revLe_shown)
      have up: "revLe (shown es (i + ?k)) (shown es (length es))"
        using le by (simp add: revLe_shown)
      have bnd: "revLe (shown es i) (lines (fstate f)) \<and> revLe (shown es (i + ?k)) (lines (fstate f))
          \<and> revLe (lines (fstate f)) (shown es (length es))"
        if "f \<in> set (timeline ?mk om cpf ts es (i + ?k) cc)" for f
        using ih that low revLe_trans by blast
      show ?thesis
        using ih bnd low up
        by (auto simp: timeline_batch True inst interLine_def sorted_wrt_append createFrame_def
            revLe_refl)
    next
      case False
      note ih = "1.hyps"(2) [OF True False]
      let ?T = "typeFrames ?mk cpf ts (etext (es ! i)) (showPrompt (es ! i)) (shown es i) 0 cc"
      have Tl: "revLe (shown es i) (lines (fstate f)) \<and> revLe (lines (fstate f)) (shown es (Suc i))"
        if fT: "f \<in> set ?T" for f
      proof -
        obtain k where "lines (fstate f) =
            shown es i @ [Some \<lparr>ltext = take k (etext (es ! i)), lshowPrompt = showPrompt (es ! i)\<rparr>]"
          using typeFrames_lines [OF fT] by blast
        then show ?thesis
          using True by (simp add: revLe_shown_part revLe_part_shown)
      qed
      have low: "revLe (shown es i) (shown es (Suc i))"
        using True by (simp add: revLe_shown)
      have up: "revLe (shown es (Suc i)) (shown es (length es))"
        using True by (simp add: revLe_shown)
      have bnd: "revLe (shown es i) (lines (fstate f)) \<and> revLe (shown es (Suc i)) (lines (fstate f))
          \<and> revLe (lines (fstate f)) (shown es (length es))"
        if "f \<in> set (timeline ?mk om cpf ts es (Suc i) (cc + length (etext (es ! i))))" for f
        using ih that low revLe_trans True by (metis Suc_leI)
      have TS: "sorted_wrt ?R ?T"
        using "1.prems" by (rule typeFrames_sorted)
      have Tup: "revLe (lines (fstate f)) (shown es (length es))" if "f \<in> set ?T" for f
        using Tl [OF that] up revLe_trans by blast
      have Tbnd: "revLe (lines (fstate f)) (lines (fstate g))"
        if "f \<in> set ?T" "g \<in> set (timeline ?mk om cpf ts es (Suc i) (cc + length (etext (es ! i))))"
        for f g
        using Tl [OF that(1)] bnd [OF that(2)] revLe_trans by blast
      have srt: "sorted_wrt ?R (timeline ?mk om cpf ts es (Suc i) (cc + length (etext (es ! i))))"
        using ih True by simp
      show ?thesis
        unfolding timeline_typed [OF True False]
        using TS Tl Tup Tbnd srt bnd low up
        by (auto simp: interLine_def sorted_wrt_append createFrame_def revLe_refl)
    qed
  qed
qed

lemma generate_sorted:
  "sorted_wrt (\<lambda>f g. revLe (lines (fstate f)) (lines (fstate g)))
     (generateAnimationFrames measureText es cfg opts)
   \<and> (\<forall>f \<in> set (generateAnimationFrames measureText es cfg opts).
        revLe (lines (fstate f)) (shown es (length es)))"
  using timeline_sorted [of 0 es "adjustedConfig measureText es cfg opts"
      "finalCanvasSize measureText es cfg opts" "outputMode cfg"
      "charsPerFrame (typedChars (outputMode cfg) es) (targetFrameCount opts)" "typingSpeed opts" 0]
  by (auto simp: generate_timeline sorted_wrt_append createFrame_def revLe_Nil revLe_refl)

lemma takeWhile_stop:
  assumes "j < length xs" "\<not> P (xs ! j)"
  shows "length (takeWhile P xs) \<le> j"
proof (rule ccontr)
  assume "\<not> length (takeWhile P xs) \<le> j"
  then have lt: "j < length (takeWhile P xs)" by simp
  then have "takeWhile P xs ! j = xs ! j" by (rule takeWhile_nth)
  moreover have "takeWhile P xs ! j \<in> set (takeWhile P xs)" using lt by simp
  ultimately have "P (xs ! j)" using set_takeWhileD by metis
  then show False using assms by simp
qed

lemma batchLen_stop:
  assumes "i \<le> q" "q < length es" "\<not> shouldBeInstant om (es ! q)"
  shows "i + batchLen om es i \<le> q"
proof -
  have "length (takeWhile (shouldBeInstant om) (drop i es)) \<le> q - i"
    using assms by (intro takeWhile_stop) auto
  then show ?thesis using assms by (simp add: batchLen_def)
qed

lemma batchLen_run:
  assumes "\<forall>e \<in> set run. shouldBeInstant om e" "post = [] \<or> \<not> shouldBeInstant om (hd post)"
  shows "batchLen om (pre @ run @ post) (length pre) = length run"
proof -
  have "takeWhile (shouldBeInstant om) (run @ post) = run"
    using assms by (cases post) (auto simp: takeWhile_append2)
  then show ?thesis by (simp add: batchLen_def)
qed

lemma take_shown: "i \<le> j \<Longrightarrow> take i (shown es j) = shown es i"
  by (simp add: shown_def take_map min_def)

lemma timeline_keeps:
  "i \<le> length es \<Longrightarrow> f \<in> set (timeline (createFrame acfg sz) om cpf ts es i cc) \<Longrightarrow>
   take i (lines (fstate f)) = shown es i"
proof (induction "createFrame acfg sz" om cpf ts es i cc rule: timeline.induct)
  case (1 om cpf ts es i cc)
  let ?mk = "createFrame acfg sz"
  show ?case
  proof (cases "i < length es")
    case False
    then show ?thesis using "1.prems" by (simp add: timeline_done)
  next
    case True
    show ?thesis
    proof (cases "shouldBeInstant om (es ! i)")
      case inst: True
      let ?k = "batchLen om es i"
      have le: "i + ?k \<le> length es"
        using "1.prems"(1) by (rule batchLen_le)
      have tk: "take i (shown es (i + ?k)) = shown es i"
        by (simp add: take_shown)
      consider (b) "lines (fstate f) = shown es (i + ?k)"
        | (r) "f \<in> set (timeline ?mk om cpf ts es (i + ?k) cc)"
        using "1.prems"(2) unfolding timeline_batch [OF True inst]
        by (auto simp: interLine_def createFrame_def split: if_splits)
      then show ?thesis
      proof cases
        case b
        then show ?thesis using tk by simp
      next
        case r
        have "take (i + ?k) (lines (fstate f)) = shown es (i + ?k)"
          using "1.hyps"(1) [OF True inst le r] .
        then have "take i (take (i + ?k) (lines (fstate f))) = shown es i"
          using tk by simp
        then show ?thesis by (simp add: min_def)
      qed
    next
      case False
      have tk: "take i (shown es (Suc i)) = shown es i"
        by (simp add: take_shown)
      have len: "length (shown es i) = i"
        using "1.prems"(1) by (simp add: length_shown)
      consider (t) "f \<in> set (typeFrames ?mk cpf ts (etext (es ! i)) (showPrompt (es ! i)) (shown es i) 0 cc)"
        | (b) "lines (fstate f) = shown es (Suc i)"
        | (r) "f \<in> set (timeline ?mk om cpf ts es (Suc i) (cc + length (etext (es ! i))))"
        using "1.prems"(2) unfolding timeline_typed [OF True False]
        by (auto simp: interLine_def createFrame_def split: if_splits)
      then show ?thesis
      proof cases
        case t
        then obtain k where "lines (fstate f) = shown es i @
            [Some \<lparr>ltext = take k (etext (es ! i)), lshowPrompt = showPrompt (es ! i)\<rparr>]"
          using typeFrames_lines by blast
        then show ?thesis using len by simp
      next
        case b
        then show ?thesis using tk by simp
      next
        case r
        have "take (Suc i) (lines (fstate f)) = shown es (Suc i)"
          using "1.hyps"(2) [OF True False _ r] True by simp
        then have "take i (take (Suc i) (lines (fstate f))) = shown es i"
          using tk by simp
        then show ?thesis by (simp add: min_def)
      qed
    qed
  qed
qed

lemma typedChars_acc:
  "foldl (\<lambda>sum l. if shouldBeInstant om l then sum else sum + length (etext l)) a xs =
   a + typedChars om xs"
proof (induction xs arbitrary: a)
  case Nil
  show ?case by (simp add: typedChars_def)
next
  case (Cons x xs)
  show ?case
    using Cons [of "if shouldBeInstant om x then a else a + length (etext x)"]
      Cons [of "if shouldBeInstant om x then 0 else 0 + length (etext x)"]
    by (simp add: typedChars_def)
qed

lemma typedChars_append:
  "typedChars om (xs @ ys) = typedChars om xs + typedChars om ys"
  using typedChars_acc [of om "typedChars om xs" ys] by (simp add: typedChars_def)

lemma typedChars_instant:
  "\<forall>e \<in> set xs. shouldBeInstant om e \<Longrightarrow> typedChars om xs = 0"
  by (induction xs rule: rev_induct) (simp_all add: typedChars_append, simp_all add: typedChars_def)

lemma typedChars_take_Suc:
  "i < length es \<Longrightarrow> \<not> shouldBeInstant om (es ! i) \<Longrightarrow>
   typedChars om (take (Suc i) es) = typedChars om (take i es) + length (etext (es ! i))"
  by (simp add: take_Suc_conv_app_nth typedChars_append, simp add: typedChars_def)

lemma typedChars_take_batch:
  "typedChars om (take (i + batchLen om es i) es) = typedChars om (take i es)"
proof -
  have tw: "takeWhile (shouldBeInstant om) (drop i es) = take (batchLen om es i) (drop i es)"
    unfolding batchLen_def by (rule takeWhile_eq_take)
  have "take (i + batchLen om es i) es = take i es @ take (batchLen om es i) (drop i es)"
    by (simp add: take_add)
  then have "take (i + batchLen om es i) es = take i es @ takeWhile (shouldBeInstant om) (drop i es)"
    using tw by simp
  moreover have "typedChars om (takeWhile (shouldBeInstant om) (drop i es)) = 0"
    by (rule typedChars_instant) (auto dest: set_takeWhileD)
  ultimately show ?thesis by (simp add: typedChars_append)
qed

lemma timeline_cursor_ge:
  "f \<in> set (timeline (createFrame acfg sz) om cpf ts es i cc) \<Longrightarrow>
   i \<le> cursorLineIndex (fstate f)"
proof (induction "createFrame acfg sz" om cpf ts es i cc rule: timeline.induct)
  case (1 om cpf ts es i cc)
  let ?mk = "createFrame acfg sz"
  show ?case
  proof (cases "i < length es")
    case False
    then show ?thesis using "1.prems" by (simp add: timeline_done)
  next
    case True
    show ?thesis
    proof (cases "shouldBeInstant om (es ! i)")
      case inst: True
      let ?k = "batchLen om es i"
      have k: "0 < ?k" using batchLen_pos [OF True inst] by simp
      consider (b) "cursorLineIndex (fstate f) = i + ?k - 1"
        | (n) "cursorLineIndex (fstate f) = i + ?k"
        | (r) "f \<in> set (timeline ?mk om cpf ts es (i + ?k) cc)"
        using "1.prems" unfolding timeline_batch [OF True inst]
        by (auto simp: interLine_def createFrame_def split: if_splits)
      then show ?thesis
      proof cases
        case b
        then show ?thesis using k by simp
      next
        case n
        then show ?thesis by simp
      next
        case r
        then show ?thesis using "1.hyps"(1) [OF True inst r] by simp
      qed
    next
      case False
      have len: "length (shown es i) = i"
        using True by (simp add: length_shown)
      consider (t) "f \<in> set (typeFrames ?mk cpf ts (etext (es ! i)) (showPrompt (es ! i)) (shown es i) 0 cc)"
        | (n) "cursorLineIndex (fstate f) = Suc i"
        | (r) "f \<in> set (timeline ?mk om cpf ts es (Suc i) (cc + length (etext (es ! i))))"
        using "1.prems" unfolding timeline_typed [OF True False]
        by (auto simp: interLine_def createFrame_def split: if_splits)
      then show ?thesis
      proof cases
        case t
        then obtain k where "f = ?mk (shown es i @
            [Some \<lparr>ltext = take k (etext (es ! i)), lshowPrompt = showPrompt (es ! i)\<rparr>])
            (length (shown es i)) (max 30 ts)"
          unfolding typeFrames_def by auto
        then have "cursorLineIndex (fstate f) = i"
          using len by (simp add: createFrame_def)
        then show ?thesis by simp
      next
        case n
        then show ?thesis by simp
      next
        case r
        then show ?thesis using "1.hyps"(2) [OF True False r] by simp
      qed
    qed
  qed
qed

lemma timeline_reach:
  "i \<le> p \<Longrightarrow> p \<le> length es \<Longrightarrow>
   p = 0 \<or> (\<exists>q. q < length es \<and> \<not> shouldBeInstant om (es ! q) \<and> (q = p \<or> Suc q = p)) \<Longrightarrow>
   \<exists>A cc'. timeline (createFrame acfg sz) om cpf ts es i cc =
              A @ timeline (createFrame acfg sz) om cpf ts es p cc'
          \<and> cc' + typedChars om (take i es) = cc + typedChars om (take p es)
          \<and> (\<forall>f \<in> set A. length (lines (fstate f)) \<le> p \<and> cursorLineIndex (fstate f) \<le> p)"
proof (induction "createFrame acfg sz" om cpf ts es i cc rule: timeline.induct)
  case (1 om cpf ts es i cc)
  let ?mk = "createFrame acfg sz"
  show ?case
  proof (cases "i = p")
    case True
    have "timeline ?mk om cpf ts es i cc = [] @ timeline ?mk om cpf ts es p cc
        \<and> cc + typedChars om (take i es) = cc + typedChars om (take p es)
        \<and> (\<forall>f \<in> set []. length (lines (fstate f)) \<le> p \<and> cursorLineIndex (fstate f) \<le> p)"
      using True by simp
    then show ?thesis by blast
  next
    case False
    then have ip: "i < p" using "1.prems"(1) by simp
    then have lt: "i < length es" using "1.prems"(2) by simp
    obtain q where q: "q < length es" "\<not> shouldBeInstant om (es ! q)" "q = p \<or> Suc q = p"
      using ip "1.prems"(3) by auto
    have iq: "i \<le> q" "q \<le> p" using q(3) ip by auto
    show ?thesis
    proof (cases "shouldBeInstant om (es ! i)")
      case inst: True
      let ?k = "batchLen om es i"
      have "i + ?k \<le> q"
        using iq(1) q(1,2) by (rule batchLen_stop)
      then have le': "i + ?k \<le> p" using iq(2) by simp
      obtain A cc' where A: "timeline ?mk om cpf ts es (i + ?k) cc =
              A @ timeline ?mk om cpf ts es p cc'"
          "cc' + typedChars om (take (i + ?k) es) = cc + typedChars om (take p es)"
          "\<forall>f \<in> set A. length (lines (fstate f)) \<le> p \<and> cursorLineIndex (fstate f) \<le> p"
        using "1.hyps"(1) [OF lt inst le' "1.prems"(2,3)] by blast
      let ?B = "?mk (shown es (i + ?k)) (i + ?k - 1) (batchDelay ?k) # interLine ?mk es (i + ?k)"
      have eq: "timeline ?mk om cpf ts es i cc = (?B @ A) @ timeline ?mk om cpf ts es p cc'"
        using A(1) by (simp add: timeline_batch [OF lt inst])
      have tc: "cc' + typedChars om (take i es) = cc + typedChars om (take p es)"
        using A(2) by (simp add: typedChars_take_batch)
      have "\<forall>f \<in> set (?B @ A). length (lines (fstate f)) \<le> p \<and> cursorLineIndex (fstate f) \<le> p"
        using A(3) le' "1.prems"(2)
        by (auto simp: interLine_def createFrame_def length_shown)
      then show ?thesis using eq tc by blast
    next
      case ni: False
      have le': "Suc i \<le> p" using ip by simp
      obtain A cc' where A: "timeline ?mk om cpf ts es (Suc i) (cc + length (etext (es ! i))) =
              A @ timeline ?mk om cpf ts es p cc'"
          "cc' + typedChars om (take (Suc i) es) =
             cc + length (etext (es ! i)) + typedChars om (take p es)"
          "\<forall>f \<in> set A. length (lines (fstate f)) \<le> p \<and> cursorLineIndex (fstate f) \<le> p"
        using "1.hyps"(2) [OF lt ni le' "1.prems"(2,3)] by blast
      let ?T = "typeFrames ?mk cpf ts (etext (es ! i)) (showPrompt (es ! i)) (shown es i) 0 cc"
      let ?B = "?T @ interLine ?mk es (Suc i)"
      have eq: "timeline ?mk om cpf ts es i cc = (?B @ A) @ timeline ?mk om cpf ts es p cc'"
        using A(1) by (simp add: timeline_typed [OF lt ni])
      have tc: "cc' + typedChars om (take i es) = cc + typedChars om (take p es)"
        using A(2) by (simp add: typedChars_take_Suc [OF lt ni])
      have T: "length (lines (fstate f)) \<le> p \<and> cursorLineIndex (fstate f) \<le> p"
        if fT: "f \<in> set ?T" for f
      proof -
        obtain k where "f = ?mk (shown es i @
            [Some \<lparr>ltext = take k (etext (es ! i)), lshowPrompt = showPrompt (es ! i)\<rparr>])
            (length (shown es i)) (max 30 ts)"
          using fT unfolding typeFrames_def by auto
        then have "length (lines (fstate f)) = Suc (length (shown es i))
            \<and> cursorLineIndex (fstate f) = length (shown es i)"
          by (simp add: createFrame_def)
        then show ?thesis using le' lt by (auto simp: length_shown)
      qed
      have "\<forall>f \<in> set (?B @ A). length (lines (fstate f)) \<le> p \<and> cursorLineIndex (fstate f) \<le> p"
        using A(3) T le' "1.prems"(2)
        by (auto simp: interLine_def createFrame_def length_shown)
      then show ?thesis using eq tc by blast
    qed
  qed
qed

lemma batchDelay_formula:
  "batchDelay n = min 400 (150 + of_nat n * min 50 (200 / of_nat n))"
  by (simp add: batchDelay_def Let_def min.commute)

section \<open>The driver: lemmas\<close>

lemma length_doneLines: "k \<le> length lns \<Longrightarrow> length (doneLines lns k) = k"
  by (simp add: doneLines_def)

lemma doneLines_Suc:
  "k < length lns \<Longrightarrow>
   doneLines lns (Suc k) = doneLines lns k @ [Some \<lparr>ttext = lns ! k, complete = True\<rparr>]"
  by (simp add: doneLines_def take_Suc_conv_app_nth)

lemma take_doneLines: "i \<le> k \<Longrightarrow> take i (doneLines lns k) = doneLines lns i"
  by (simp add: doneLines_def take_map min_def)

lemma js_set_next:
  assumes t: "take i xs = d" and l: "length d = i" and u: "length xs \<le> i + 1"
  shows "js_set xs i v = d @ [Some v]"
proof (cases "length xs = i")
  case True
  then have "xs = d" using t by simp
  then show ?thesis using l js_set_length [of d v] by simp
next
  case False
  have "i \<le> length xs" using t l by (metis length_take min.cobounded1)
  then have n: "length xs = Suc i" using False u by simp
  then have "xs = take i xs @ [xs ! i]"
    by (metis lessI take_Suc_conv_app_nth take_all order_refl)
  then have "xs = d @ [xs ! i]" using t by simp
  then have "xs[i := Some v] = d @ [Some v]"
    using l by (metis list_update_length)
  then show ?thesis using n by (simp add: js_set_def)
qed

lemma driverInv_start: "lns \<noteq> [] \<Longrightarrow> driverInv lns (startDriver lns True)"
  by (simp add: driverInv_def startDriver_def doneLines_def)

lemma lineDone_inv:
  assumes i: "d_lineIdx s < length lns"
    and c: "currentLineIndex s = d_lineIdx s"
    and d: "displayedLines s = doneLines lns (d_lineIdx s + 1)"
    and n: "\<not> isComplete s"
    and w: "\<not> waitingForNextLine s"
  shows "driverInv lns (lineDone lns timestamp s)"
proof -
  have tk: "take (d_lineIdx s) (displayedLines s) = doneLines lns (d_lineIdx s)"
    using d by (simp add: take_doneLines)
  have len: "length (displayedLines s) \<le> d_lineIdx s + 1"
    using d i by (simp add: length_doneLines)
  show ?thesis
  proof (cases "d_lineIdx s < length lns - 1")
    case True
    then show ?thesis
      using i c d n tk len by (simp add: lineDone_def driverInv_def)
  next
    case False
    then have "d_lineIdx s + 1 = length lns" using i by simp
    then show ?thesis
      using i c d n w tk len False by (simp add: lineDone_def driverInv_def)
  qed
qed

lemma animate_inv:
  assumes inv: "driverInv lns s" and sch: "scheduled s"
  shows "driverInv lns (animate lns speed lineDelay om lineInfo timestamp s)"
proof -
  let ?s = "(if lastTime s = 0 then s\<lparr>lastTime := timestamp\<rparr> else s)"
  have inv': "driverInv lns ?s" and nc: "\<not> isComplete ?s"
    using inv sch by (auto simp: driverInv_def)
  have i: "d_lineIdx ?s < length lns"
    and c: "currentLineIndex ?s = d_lineIdx ?s"
    and tk: "take (d_lineIdx ?s) (displayedLines ?s) = doneLines lns (d_lineIdx ?s)"
    and len: "length (displayedLines ?s) \<le> d_lineIdx ?s + 1"
    using inv' by (simp_all add: driverInv_def)
  have ld: "length (doneLines lns (d_lineIdx ?s)) = d_lineIdx ?s"
    using i by (simp add: length_doneLines)
  have set_done: "js_set (displayedLines ?s) (d_lineIdx ?s)
        \<lparr>ttext = lns ! d_lineIdx ?s, complete = True\<rparr> = doneLines lns (d_lineIdx ?s + 1)"
    using js_set_next [OF tk ld len] i by (simp add: doneLines_Suc)
  show ?thesis
  proof (cases "waitingForNextLine ?s")
    case True
    then have w: "d_lineIdx ?s + 1 < length lns"
        "displayedLines ?s = doneLines lns (d_lineIdx ?s + 1)"
      using inv' by (simp_all add: driverInv_def)
    show ?thesis
    proof (cases "timestamp - waitStartTime ?s \<ge> lineDelay")
      case d: True
      have "driverInv lns (?s\<lparr>waitingForNextLine := False, d_lineIdx := d_lineIdx ?s + 1,
          d_charIdx := 0, currentLineIndex := d_lineIdx ?s + 1, lastTime := timestamp,
          scheduled := True\<rparr>)"
        using w nc by (simp add: driverInv_def length_doneLines)
      then show ?thesis using True d by (simp add: animate_def Let_def)
    next
      case d: False
      have "driverInv lns (?s\<lparr>scheduled := True\<rparr>)"
        using inv' nc by (simp add: driverInv_def)
      then show ?thesis using True d by (simp add: animate_def Let_def)
    qed
  next
    case nw: False
    have ge: "\<not> d_lineIdx ?s \<ge> length lns" using i by simp
    show ?thesis
    proof (cases "shouldTypeLine om lineInfo (d_lineIdx ?s)")
      case False
      have "driverInv lns (lineDone lns timestamp
          (?s\<lparr>displayedLines := js_set (displayedLines ?s) (d_lineIdx ?s)
                \<lparr>ttext = lns ! d_lineIdx ?s, complete = True\<rparr>\<rparr>))"
        using i c nc nw set_done by (intro lineDone_inv) simp_all
      then show ?thesis using nw ge False by (simp add: animate_def Let_def)
    next
      case ty: True
      show ?thesis
      proof (cases "timestamp - lastTime ?s < speed")
        case True
        have "driverInv lns (?s\<lparr>scheduled := True\<rparr>)"
          using inv' nc nw by (simp add: driverInv_def)
        then show ?thesis using nw ge ty True by (simp add: animate_def Let_def)
      next
        case el: False
        show ?thesis
        proof (cases "d_charIdx ?s < length (lns ! d_lineIdx ?s)")
          case True
          have js: "js_set (displayedLines ?s) (d_lineIdx ?s)
              \<lparr>ttext = take (d_charIdx ?s + 1) (lns ! d_lineIdx ?s), complete = False\<rparr> =
            doneLines lns (d_lineIdx ?s)
              @ [Some \<lparr>ttext = take (d_charIdx ?s + 1) (lns ! d_lineIdx ?s), complete = False\<rparr>]"
            by (rule js_set_next [OF tk ld len])
          have "driverInv lns (?s\<lparr>lastTime := timestamp, d_charIdx := d_charIdx ?s + 1,
              displayedLines := js_set (displayedLines ?s) (d_lineIdx ?s)
                \<lparr>ttext = take (d_charIdx ?s + 1) (lns ! d_lineIdx ?s), complete = False\<rparr>,
              scheduled := True\<rparr>)"
            using i c nc nw ld unfolding js by (simp add: driverInv_def)
          then show ?thesis using nw ge ty el True by (simp add: animate_def Let_def)
        next
          case False
          have "driverInv lns (lineDone lns timestamp
              (?s\<lparr>lastTime := timestamp,
                   displayedLines := js_set (displayedLines ?s) (d_lineIdx ?s)
                    \<lparr>ttext = lns ! d_lineIdx ?s, complete = True\<rparr>\<rparr>))"
            using i c nc nw set_done by (intro lineDone_inv) simp_all
          then show ?thesis using nw ge ty el False by (simp add: animate_def Let_def)
        qed
      qed
    qed
  qed
qed

lemma runDriver_inv:
  "driverInv lns s \<Longrightarrow> driverInv lns (runDriver lns speed lineDelay om lineInfo s tss)"
  by (induction tss arbitrary: s) (simp_all add: animate_inv)

lemma generate_last:
  "last (generateAnimationFrames measureText es cfg opts) =
     createFrame (adjustedConfig measureText es cfg opts) (finalCanvasSize measureText es cfg opts)
       (shown es (length es)) (length es) 2000"
  by (simp add: generate_timeline)

section \<open>The painter: lemmas\<close>

lemma drawPrompt_no_cursor: "DrawCursor i \<notin> set (drawPrompt cfg)"
  by (auto simp: drawPrompt_def Let_def)

lemma drawLines_total:
  "None \<notin> set ls \<Longrightarrow> \<exists>ops. drawLines cfg sc cur k ls = Inr ops"
proof (induction ls arbitrary: k)
  case Nil
  show ?case by simp
next
  case (Cons a ls)
  then obtain line where a: "a = Some line" by (cases a) auto
  obtain ops where "drawLines cfg sc cur (k + 1) ls = Inr ops"
    using Cons by auto
  then show ?case using a by simp
qed

lemma drawLines_cursor:
  "drawLines cfg sc cur k ls = Inr ops \<Longrightarrow>
   (DrawCursor i \<in> set ops) = (sc \<and> i = cur \<and> k \<le> i \<and> i < k + length ls)"
proof (induction ls arbitrary: k ops)
  case Nil
  then show ?case by auto
next
  case (Cons a ls)
  then obtain line where a: "a = Some line" by (cases a) auto
  obtain ops' where r: "drawLines cfg sc cur (k + 1) ls = Inr ops'"
    using Cons.prems a by (cases "drawLines cfg sc cur (k + 1) ls") auto
  have ih: "(DrawCursor i \<in> set ops') = (sc \<and> i = cur \<and> k + 1 \<le> i \<and> i < k + 1 + length ls)"
    using Cons.IH [OF r] .
  have ops: "ops = (if lshowPrompt line \<and> promptText cfg \<noteq> [] then drawPrompt cfg else [])
               @ [FillText (ltext line)]
               @ (if sc \<and> cur = k then [DrawCursor k] else [])
               @ ops'"
    using Cons.prems a r by simp
  show ?case
    unfolding ops using ih drawPrompt_no_cursor [of i cfg] by auto
qed

lemma drawTerminal_cursor:
  "drawTerminal cfg ds = Inr ops \<Longrightarrow>
   (DrawCursor i \<in> set ops) =
     (showCursor ds \<and> i = cursorLineIndex ds \<and> i < length (lines ds))"
proof -
  assume d: "drawTerminal cfg ds = Inr ops"
  then obtain ops' where r: "drawLines cfg (showCursor ds) (cursorLineIndex ds) 0 (lines ds) = Inr ops'"
    by (cases "drawLines cfg (showCursor ds) (cursorLineIndex ds) 0 (lines ds)")
      (auto simp: drawTerminal_def)
  have ops: "ops = ops' @ (if showCursor ds \<and> cursorLineIndex ds \<ge> length (lines ds)
                      then drawPrompt cfg @ [DrawEndCursor] else [])"
    using d r by (simp add: drawTerminal_def)
  show ?thesis
    unfolding ops using drawLines_cursor [OF r, of i] drawPrompt_no_cursor [of i cfg] by auto
qed

lemma shown_no_holes: "None \<notin> set (shown es j)"
  by (auto simp: shown_def fullLine_def)

lemma timeline_no_holes:
  "f \<in> set (timeline (createFrame acfg sz) om cpf ts es i cc) \<Longrightarrow>
   None \<notin> set (lines (fstate f)) \<and> showCursor (fstate f) \<and> fconfig f = acfg"
proof (induction "createFrame acfg sz" om cpf ts es i cc rule: timeline.induct)
  case (1 om cpf ts es i cc)
  let ?mk = "createFrame acfg sz"
  show ?case
  proof (cases "i < length es")
    case False
    then show ?thesis using "1.prems" by (simp add: timeline_done)
  next
    case True
    show ?thesis
    proof (cases "shouldBeInstant om (es ! i)")
      case inst: True
      let ?k = "batchLen om es i"
      consider (b) "\<exists>c d. f = ?mk (shown es (i + ?k)) c d"
        | (r) "f \<in> set (timeline ?mk om cpf ts es (i + ?k) cc)"
        using "1.prems" unfolding timeline_batch [OF True inst]
        by (auto simp: interLine_def split: if_splits)
      then show ?thesis
      proof cases
        case b
        then show ?thesis using shown_no_holes by (auto simp: createFrame_def)
      next
        case r
        then show ?thesis using "1.hyps"(1) [OF True inst] by simp
      qed
    next
      case False
      consider (t) "f \<in> set (typeFrames ?mk cpf ts (etext (es ! i)) (showPrompt (es ! i)) (shown es i) 0 cc)"
        | (b) "\<exists>c d. f = ?mk (shown es (Suc i)) c d"
        | (r) "f \<in> set (timeline ?mk om cpf ts es (Suc i) (cc + length (etext (es ! i))))"
        using "1.prems" unfolding timeline_typed [OF True False]
        by (auto simp: interLine_def split: if_splits)
      then show ?thesis
      proof cases
        case t
        then obtain k where "f = ?mk (shown es i @
            [Some \<lparr>ltext = take k (etext (es ! i)), lshowPrompt = showPrompt (es ! i)\<rparr>])
            (length (shown es i)) (max 30 ts)"
          unfolding typeFrames_def by auto
        then show ?thesis using shown_no_holes by (auto simp: createFrame_def)
      next
        case b
        then show ?thesis using shown_no_holes by (auto simp: createFrame_def)
      next
        case r
        then show ?thesis using "1.hyps"(2) [OF True False] by simp
      qed
    qed
  qed
qed

lemma generate_no_holes:
  assumes "f \<in> set (generateAnimationFrames measureText es cfg opts)"
  shows "None \<notin> set (lines (fstate f)) \<and> showCursor (fstate f)"
  using assms timeline_no_holes [of f "adjustedConfig measureText es cfg opts"
      "finalCanvasSize measureText es cfg opts"] shown_no_holes [of es "length es"]
  by (auto simp: generate_timeline createFrame_def)

section \<open>Classification: results\<close>

text \<open>
  C3, as claimed: a Command line between two \<open>!!\<close> markers gets \<open>instant = true\<close> and is
  revealed in one frame. The code does otherwise: the Command entry has \<open>instant = false\<close>,
  and the generator types it (two typing frames of 50 ms for \<open>ls\<close>).
\<close>

theorem command_in_block_counterexample:
  "parseLines [js ''!!'', js ''> ls'', js ''!!''] (js ''$ '') =
     [\<lparr>etype = Command, etext = js ''ls'', showPrompt = True, instant = False\<rparr>]
   \<and> map delay (generateAnimationFrames monoMeasure
          (parseLines [js ''!!'', js ''> ls'', js ''!!''] (js ''$ '')) sampleConfig defaultOptions)
       = [500, 50, 50, 2000]"
  by code_simp


text \<open>
  C3, amended. Every Command entry the parser produces has \<open>showPrompt\<close> true and
  \<open>instant\<close> false, inside an instant block as well as outside, so the generator classifies
  it as instant in neither output mode and sends it through the typing loop. Its frames
  are, between the frames of the earlier lines and the frames that show the line complete,
  exactly these: for each \<open>k\<close> from 1 to the length of its text at which the running count
  of typed characters is a multiple of \<open>charsPerFrame\<close>, and for \<open>k\<close> the length itself, one
  frame with the cursor on the line, held \<open>max(30, typingSpeed)\<close> ms, showing the first \<open>k\<close>
  characters. (With \<open>charsPerFrame\<close> above 1 a short command can thus appear in a single
  frame, as \<open>command_after_long_command_in_one_frame\<close> shows.)
\<close>

theorem parsed_command_typing_path:
  assumes i: "i < length (parseLines ls p)"
    and c: "etype (parseLines ls p ! i) = Command"
  shows "showPrompt (parseLines ls p ! i) \<and> \<not> instant (parseLines ls p ! i)
     \<and> \<not> shouldBeInstant om (parseLines ls p ! i)
     \<and> (\<exists>fs1 fs2.
          generateAnimationFrames measureText (parseLines ls p) cfg opts =
            fs1
            @ map (\<lambda>k. createFrame (adjustedConfig measureText (parseLines ls p) cfg opts)
                          (finalCanvasSize measureText (parseLines ls p) cfg opts)
                          (shown (parseLines ls p) i
                             @ [Some \<lparr>ltext = take k (etext (parseLines ls p ! i)),
                                      lshowPrompt = True\<rparr>])
                          i (max 30 (typingSpeed opts)))
                (filter (\<lambda>k. frameDue (typedChars (outputMode cfg) (take i (parseLines ls p)) + k)
                                (charsPerFrame (typedChars (outputMode cfg) (parseLines ls p))
                                   (targetFrameCount opts))
                              \<or> k = length (etext (parseLines ls p ! i)))
                   [1 ..< Suc (length (etext (parseLines ls p ! i)))])
            @ fs2
          \<and> (\<forall>f \<in> set fs1. length (lines (fstate f)) \<le> i \<and> cursorLineIndex (fstate f) \<le> i)
          \<and> (\<forall>f \<in> set fs2. take (Suc i) (lines (fstate f)) = shown (parseLines ls p) (Suc i)
                          \<and> Suc i \<le> cursorLineIndex (fstate f)))"
proof -
  let ?es = "parseLines ls p"
  let ?e = "?es ! i"
  let ?om = "outputMode cfg"
  let ?mk = "createFrame (adjustedConfig measureText ?es cfg opts)
      (finalCanvasSize measureText ?es cfg opts)"
  let ?cpf = "charsPerFrame (typedChars ?om ?es) (targetFrameCount opts)"
  have mem: "?e \<in> set (parseFrom False ls)"
    using i by (simp add: parseLines_def parseFrom_def)
  have sh: "showPrompt ?e \<and> \<not> instant ?e"
    using parseFrom_command_shape [OF mem c] .
  then have ni: "\<not> shouldBeInstant om' ?e" for om'
    by (simp add: shouldBeInstant_def)
  have bnd: "i = 0 \<or> (\<exists>q. q < length ?es \<and> \<not> shouldBeInstant ?om (?es ! q) \<and> (q = i \<or> Suc q = i))"
    using i ni by blast
  have le0: "0 \<le> i" and lei: "i \<le> length ?es" using i by simp_all
  have "\<exists>A cc'. timeline ?mk ?om ?cpf (typingSpeed opts) ?es 0 0 =
        A @ timeline ?mk ?om ?cpf (typingSpeed opts) ?es i cc'
      \<and> cc' + typedChars ?om (take 0 ?es) = 0 + typedChars ?om (take i ?es)
      \<and> (\<forall>f \<in> set A. length (lines (fstate f)) \<le> i \<and> cursorLineIndex (fstate f) \<le> i)"
    by (rule timeline_reach [OF le0 lei bnd])
  then obtain A cc' where A: "timeline ?mk ?om ?cpf (typingSpeed opts) ?es 0 0 =
        A @ timeline ?mk ?om ?cpf (typingSpeed opts) ?es i cc'"
      "cc' + typedChars ?om (take 0 ?es) = 0 + typedChars ?om (take i ?es)"
      "\<forall>f \<in> set A. length (lines (fstate f)) \<le> i \<and> cursorLineIndex (fstate f) \<le> i"
    by blast
  have cc: "cc' = typedChars ?om (take i ?es)"
    using A(2) by (simp add: typedChars_def)
  let ?T = "map (\<lambda>k. ?mk (shown ?es i @ [Some \<lparr>ltext = take k (etext ?e), lshowPrompt = True\<rparr>])
                          i (max 30 (typingSpeed opts)))
                (filter (\<lambda>k. frameDue (typedChars ?om (take i ?es) + k) ?cpf \<or> k = length (etext ?e))
                   [1 ..< Suc (length (etext ?e))])"
  let ?rest = "timeline ?mk ?om ?cpf (typingSpeed opts) ?es (Suc i) (cc' + length (etext ?e))"
  have tf: "typeFrames ?mk ?cpf (typingSpeed opts) (etext ?e) (showPrompt ?e) (shown ?es i) 0 cc' = ?T"
    using sh cc lei by (simp add: typeFrames_def length_shown)
  have ti: "timeline ?mk ?om ?cpf (typingSpeed opts) ?es i cc' =
      ?T @ interLine ?mk ?es (Suc i) @ ?rest"
    using timeline_typed [OF i ni [of ?om], of ?mk ?cpf "typingSpeed opts" cc'] tf by simp
  let ?fs1 = "?mk [] 0 500 # A"
  let ?fs2 = "interLine ?mk ?es (Suc i) @ ?rest
      @ [?mk (shown ?es (length ?es)) (length ?es) 2000]"
  have eq: "generateAnimationFrames measureText ?es cfg opts = ?fs1 @ ?T @ ?fs2"
    using A(1) ti by (simp add: generate_timeline)
  have f1: "\<forall>f \<in> set ?fs1. length (lines (fstate f)) \<le> i \<and> cursorLineIndex (fstate f) \<le> i"
    using A(3) by (simp add: createFrame_def)
  have si: "Suc i \<le> length ?es" using i by simp
  have rest: "take (Suc i) (lines (fstate f)) = shown ?es (Suc i)
      \<and> Suc i \<le> cursorLineIndex (fstate f)" if r: "f \<in> set ?rest" for f
    using timeline_keeps [OF si r] timeline_cursor_ge [OF r] by simp
  have f2: "\<forall>f \<in> set ?fs2. take (Suc i) (lines (fstate f)) = shown ?es (Suc i)
      \<and> Suc i \<le> cursorLineIndex (fstate f)"
    using rest si
    by (auto simp: interLine_def createFrame_def take_shown length_shown split: if_splits)
  have ex: "\<exists>fs1 fs2. generateAnimationFrames measureText ?es cfg opts = fs1 @ ?T @ fs2
      \<and> (\<forall>f \<in> set fs1. length (lines (fstate f)) \<le> i \<and> cursorLineIndex (fstate f) \<le> i)
      \<and> (\<forall>f \<in> set fs2. take (Suc i) (lines (fstate f)) = shown ?es (Suc i)
                      \<and> Suc i \<le> cursorLineIndex (fstate f))"
    using eq f1 f2 by blast
  show ?thesis
    using sh ni [of om] ex by blast
qed


theorem parsed_command_typing_path_witness:
  "0 < length (parseLines [js ''!!'', js ''> ls'', js ''!!''] (js ''$ ''))
   \<and> etype (parseLines [js ''!!'', js ''> ls'', js ''!!''] (js ''$ '') ! 0) = Command
   \<and> \<not> instant (parseLines [js ''!!'', js ''> ls'', js ''!!''] (js ''$ '') ! 0)
   \<and> \<not> shouldBeInstant InstantMode (parseLines [js ''!!'', js ''> ls'', js ''!!''] (js ''$ '') ! 0)
   \<and> (\<exists>fs1 fs2.
        generateAnimationFrames monoMeasure
          (parseLines [js ''!!'', js ''> ls'', js ''!!''] (js ''$ '')) sampleConfig defaultOptions =
          fs1
          @ [createFrame
               (adjustedConfig monoMeasure
                  (parseLines [js ''!!'', js ''> ls'', js ''!!''] (js ''$ '')) sampleConfig
                  defaultOptions)
               (finalCanvasSize monoMeasure
                  (parseLines [js ''!!'', js ''> ls'', js ''!!''] (js ''$ '')) sampleConfig
                  defaultOptions)
               [Some \<lparr>ltext = js ''l'', lshowPrompt = True\<rparr>] 0 50,
             createFrame
               (adjustedConfig monoMeasure
                  (parseLines [js ''!!'', js ''> ls'', js ''!!''] (js ''$ '')) sampleConfig
                  defaultOptions)
               (finalCanvasSize monoMeasure
                  (parseLines [js ''!!'', js ''> ls'', js ''!!''] (js ''$ '')) sampleConfig
                  defaultOptions)
               [Some \<lparr>ltext = js ''ls'', lshowPrompt = True\<rparr>] 0 50]
          @ fs2
        \<and> (\<forall>f \<in> set fs1. lines (fstate f) = [])
        \<and> (\<forall>f \<in> set fs2. 1 \<le> cursorLineIndex (fstate f)))"
proof -
  let ?ls = "[js ''!!'', js ''> ls'', js ''!!'']"
  let ?es = "parseLines ?ls (js ''$ '')"
  let ?mk = "createFrame (adjustedConfig monoMeasure ?es sampleConfig defaultOptions)
      (finalCanvasSize monoMeasure ?es sampleConfig defaultOptions)"
  have i: "0 < length ?es" by code_simp
  have c: "etype (?es ! 0) = Command" by code_simp
  note t = parsed_command_typing_path [OF i c, of InstantMode monoMeasure sampleConfig defaultOptions]
  have n: "\<not> instant (?es ! 0)" and s: "\<not> shouldBeInstant InstantMode (?es ! 0)"
    using t by simp_all
  have mf: "map (\<lambda>k. ?mk (shown ?es 0 @ [Some \<lparr>ltext = take k (etext (?es ! 0)),
                                      lshowPrompt = True\<rparr>])
                          0 (max 30 (typingSpeed defaultOptions)))
                (filter (\<lambda>k. frameDue (typedChars (outputMode sampleConfig) (take 0 ?es) + k)
                                (charsPerFrame (typedChars (outputMode sampleConfig) ?es)
                                   (targetFrameCount defaultOptions))
                              \<or> k = length (etext (?es ! 0)))
                   [1 ..< Suc (length (etext (?es ! 0)))])
      = [?mk [Some \<lparr>ltext = js ''l'', lshowPrompt = True\<rparr>] 0 50,
         ?mk [Some \<lparr>ltext = js ''ls'', lshowPrompt = True\<rparr>] 0 50]"
    by code_simp
  obtain fs1 fs2 where
    g: "generateAnimationFrames monoMeasure ?es sampleConfig defaultOptions =
          fs1
          @ map (\<lambda>k. ?mk (shown ?es 0 @ [Some \<lparr>ltext = take k (etext (?es ! 0)),
                                      lshowPrompt = True\<rparr>])
                          0 (max 30 (typingSpeed defaultOptions)))
                (filter (\<lambda>k. frameDue (typedChars (outputMode sampleConfig) (take 0 ?es) + k)
                                (charsPerFrame (typedChars (outputMode sampleConfig) ?es)
                                   (targetFrameCount defaultOptions))
                              \<or> k = length (etext (?es ! 0)))
                   [1 ..< Suc (length (etext (?es ! 0)))])
          @ fs2"
    and f1: "\<forall>f \<in> set fs1. length (lines (fstate f)) \<le> 0 \<and> cursorLineIndex (fstate f) \<le> 0"
    and f2: "\<forall>f \<in> set fs2. take (Suc 0) (lines (fstate f)) = shown ?es (Suc 0)
                          \<and> Suc 0 \<le> cursorLineIndex (fstate f)"
    using t by blast
  have g': "generateAnimationFrames monoMeasure ?es sampleConfig defaultOptions =
      fs1 @ [?mk [Some \<lparr>ltext = js ''l'', lshowPrompt = True\<rparr>] 0 50,
             ?mk [Some \<lparr>ltext = js ''ls'', lshowPrompt = True\<rparr>] 0 50] @ fs2"
    using g unfolding mf .
  have f1': "\<forall>f \<in> set fs1. lines (fstate f) = []"
    using f1 by simp
  have f2': "\<forall>f \<in> set fs2. 1 \<le> cursorLineIndex (fstate f)"
    using f2 by simp
  have ex: "\<exists>fs1 fs2.
        generateAnimationFrames monoMeasure ?es sampleConfig defaultOptions =
          fs1 @ [?mk [Some \<lparr>ltext = js ''l'', lshowPrompt = True\<rparr>] 0 50,
                 ?mk [Some \<lparr>ltext = js ''ls'', lshowPrompt = True\<rparr>] 0 50] @ fs2
        \<and> (\<forall>f \<in> set fs1. lines (fstate f) = [])
        \<and> (\<forall>f \<in> set fs2. 1 \<le> cursorLineIndex (fstate f))"
    using g' f1' f2' by blast
  show ?thesis
    by (rule conjI [OF i conjI [OF c conjI [OF n conjI [OF s ex]]]])
qed


lemma command_after_long_command_in_one_frame:
  "map (map (map_option ltext) \<circ> lines \<circ> fstate)
     (drop 22 (generateAnimationFrames monoMeasure
        (parseLines [js ''> 0123456789012345678901234567890123456789'', js ''> ls''] (js ''$ ''))
        sampleConfig defaultOptions))
   = [[Some (js ''0123456789012345678901234567890123456789''), Some (js ''ls'')],
      [Some (js ''0123456789012345678901234567890123456789''), Some (js ''ls'')]]
   \<and> map (map (map_option ltext) \<circ> lines \<circ> fstate)
       (take 1 (drop 21 (generateAnimationFrames monoMeasure
          (parseLines [js ''> 0123456789012345678901234567890123456789'', js ''> ls''] (js ''$ ''))
          sampleConfig defaultOptions)))
     = [[Some (js ''0123456789012345678901234567890123456789'')]]"
  by code_simp


text \<open>
  C2, as claimed: the driver reveals a line instantly exactly when the generator does. The
  code does otherwise: with \<open>outputMode = 'typing'\<close> an Output line inside a \<open>!!\<close> block is
  instant for the generator and typed by the driver.
\<close>

theorem classification_counterexample:
  "parseLines [js ''!!'', js ''a'', js ''!!''] (js ''$ '') =
     [\<lparr>etype = Output, etext = js ''a'', showPrompt = False, instant = True\<rparr>]
   \<and> shouldBeInstant Typing
        (parseLines [js ''!!'', js ''a'', js ''!!''] (js ''$ '') ! 0)
   \<and> shouldTypeLine Typing (Some (parseLines [js ''!!'', js ''a'', js ''!!''] (js ''$ ''))) 0"
  by code_simp


text \<open>
  C2, amended. For every entry index, the driver reveals the line instantly exactly when
  \<open>outputMode = 'instant'\<close> and the entry has no prompt; the generator does so also when
  the entry's own \<open>instant\<close> flag is set. The two rules agree on an entry exactly when
  \<open>outputMode = 'instant'\<close> and the entry has no prompt, or its \<open>instant\<close> flag is not set.
\<close>

theorem classification_rules:
  "idx < length es \<Longrightarrow>
   (\<not> shouldTypeLine om (Some es) idx) = (om = InstantMode \<and> \<not> showPrompt (es ! idx))
   \<and> shouldBeInstant om (es ! idx) =
       ((om = InstantMode \<and> \<not> showPrompt (es ! idx)) \<or> instant (es ! idx))
   \<and> (((\<not> shouldTypeLine om (Some es) idx) = shouldBeInstant om (es ! idx)) =
       ((om = InstantMode \<and> \<not> showPrompt (es ! idx)) \<or> \<not> instant (es ! idx)))"
  by (auto simp: shouldTypeLine_def shouldBeInstant_def)


theorem classification_rules_witness:
  "(0::nat) < length (parseLines [js ''!!'', js ''a'', js ''!!''] (js ''$ ''))
   \<and> (\<not> shouldTypeLine InstantMode (Some (parseLines [js ''!!'', js ''a'', js ''!!''] (js ''$ ''))) 0)
   \<and> shouldBeInstant InstantMode (parseLines [js ''!!'', js ''a'', js ''!!''] (js ''$ '') ! 0)"
proof -
  have l: "(0::nat) < length (parseLines [js ''!!'', js ''a'', js ''!!''] (js ''$ ''))"
    by code_simp
  have sp: "\<not> showPrompt (parseLines [js ''!!'', js ''a'', js ''!!''] (js ''$ '') ! 0)"
    by code_simp
  show ?thesis
    using l sp classification_rules [OF l, of InstantMode] by simp
qed


section \<open>The generator: results\<close>

text \<open>
  C4, as claimed: for no entries the generator returns the warm-up frame only. The code
  does otherwise: the final frame is pushed after the loop whatever the entries.
\<close>

theorem generate_empty_counterexample:
  "length (generateAnimationFrames monoMeasure [] sampleConfig defaultOptions) \<noteq> 1"
  by (simp add: generate_timeline timeline_done)


text \<open>
  C4, amended. For the empty entries sequence \<open>generateAnimationFrames\<close> returns exactly
  two frames: the warm-up frame, with no lines, held 500 ms, and the final frame, again with
  no lines and the cursor at index 0, held 2000 ms. No typed or instant frame lies between.
\<close>

theorem generate_empty:
  "generateAnimationFrames measureText [] cfg opts =
     [createFrame (adjustedConfig measureText [] cfg opts) (finalCanvasSize measureText [] cfg opts)
        [] 0 500,
      createFrame (adjustedConfig measureText [] cfg opts) (finalCanvasSize measureText [] cfg opts)
        [] 0 2000]
   \<and> map delay (generateAnimationFrames measureText [] cfg opts) = [500, 2000]
   \<and> length (generateAnimationFrames measureText [] cfg opts) = 2"
  by (simp add: generate_timeline timeline_done shown_def createFrame_def)



text \<open>
  C7. Across the ordered frame sequence of \<open>generateAnimationFrames\<close>, for any entries and
  parameters, the text a frame reveals of a line is a prefix of that entry's full text and
  never longer than it (a line beyond the entries shows nothing), and from each frame to the
  next the revealed text of every line is extended, so its length does not decrease.
\<close>

theorem monotonic_reveal:
  "(\<forall>k < length (generateAnimationFrames measureText es cfg opts). \<forall>i.
      prefix (revealed (generateAnimationFrames measureText es cfg opts ! k) i)
        (if i < length es then etext (es ! i) else [])
      \<and> length (revealed (generateAnimationFrames measureText es cfg opts ! k) i)
          \<le> (if i < length es then length (etext (es ! i)) else 0))
   \<and> (\<forall>k. Suc k < length (generateAnimationFrames measureText es cfg opts) \<longrightarrow>
        (\<forall>i. prefix (revealed (generateAnimationFrames measureText es cfg opts ! k) i)
               (revealed (generateAnimationFrames measureText es cfg opts ! Suc k) i)
             \<and> length (revealed (generateAnimationFrames measureText es cfg opts ! k) i)
                 \<le> length (revealed (generateAnimationFrames measureText es cfg opts ! Suc k) i)))"
proof -
  let ?G = "generateAnimationFrames measureText es cfg opts"
  let ?R = "\<lambda>f g. revLe (lines (fstate f)) (lines (fstate g))"
  have srt: "sorted_wrt ?R ?G"
    and top: "\<And>f. f \<in> set ?G \<Longrightarrow> revLe (lines (fstate f)) (shown es (length es))"
    using generate_sorted [of measureText es cfg opts] by auto
  have a: "prefix (revealed (?G ! k) i) (if i < length es then etext (es ! i) else [])"
    if "k < length ?G" for k i
  proof -
    have "revLe (lines (fstate (?G ! k))) (shown es (length es))"
      using that top by simp
    then have "prefix (revealed (?G ! k) i) (revealedIn (shown es (length es)) i)"
      by (simp add: revLe_def revealed_def)
    then show ?thesis by (simp add: revealedIn_shown)
  qed
  have a': "length (revealed (?G ! k) i) \<le> (if i < length es then length (etext (es ! i)) else 0)"
    if "k < length ?G" for k i
    using a [OF that, of i] prefix_length_le [of "revealed (?G ! k) i"] by (auto split: if_splits)
  have b: "prefix (revealed (?G ! k) i) (revealed (?G ! Suc k) i)"
    if "Suc k < length ?G" for k i
  proof -
    have "?R (?G ! k) (?G ! Suc k)"
      using sorted_wrt_nth_less [OF srt, of k "Suc k"] that by simp
    then show ?thesis by (simp add: revLe_def revealed_def)
  qed
  have b': "length (revealed (?G ! k) i) \<le> length (revealed (?G ! Suc k) i)"
    if "Suc k < length ?G" for k i
    using b [OF that] by (rule prefix_length_le)
  show ?thesis
    using a a' b b' by blast
qed


theorem monotonic_reveal_witness:
  "Suc 1 < length (generateAnimationFrames monoMeasure
        (parseLines [js ''> ls'', js ''out''] (js ''$ '')) sampleConfig defaultOptions)
   \<and> prefix (revealed (generateAnimationFrames monoMeasure
          (parseLines [js ''> ls'', js ''out''] (js ''$ '')) sampleConfig defaultOptions ! 1) 0)
        (js ''ls'')
   \<and> length (revealed (generateAnimationFrames monoMeasure
          (parseLines [js ''> ls'', js ''out''] (js ''$ '')) sampleConfig defaultOptions ! 1) 0)
       \<le> length (revealed (generateAnimationFrames monoMeasure
          (parseLines [js ''> ls'', js ''out''] (js ''$ '')) sampleConfig defaultOptions ! Suc 1) 0)"
proof -
  let ?es = "parseLines [js ''> ls'', js ''out''] (js ''$ '')"
  let ?G = "generateAnimationFrames monoMeasure ?es sampleConfig defaultOptions"
  have l: "Suc 1 < length ?G" by code_simp
  then have l1: "1 < length ?G" by simp
  have e: "(if 0 < length ?es then etext (?es ! 0) else []) = js ''ls''" by code_simp
  have m: "\<forall>k < length ?G. \<forall>i.
      prefix (revealed (?G ! k) i) (if i < length ?es then etext (?es ! i) else [])"
    using monotonic_reveal [of monoMeasure ?es sampleConfig defaultOptions] by blast
  have n: "\<forall>k. Suc k < length ?G \<longrightarrow>
        (\<forall>i. length (revealed (?G ! k) i) \<le> length (revealed (?G ! Suc k) i))"
    using monotonic_reveal [of monoMeasure ?es sampleConfig defaultOptions] by blast
  have p0: "prefix (revealed (?G ! 1) 0) (if 0 < length ?es then etext (?es ! 0) else [])"
    by (rule m [rule_format, OF l1])
  have p: "prefix (revealed (?G ! 1) 0) (js ''ls'')"
    using p0 by (simp only: e)
  have q: "length (revealed (?G ! 1) 0) \<le> length (revealed (?G ! Suc 1) 0)"
    by (rule n [rule_format, OF l])
  show ?thesis
    by (rule conjI [OF l conjI [OF p q]])
qed

text \<open>
  C5. For any maximal run of \<open>N\<close> consecutive instant entries (no instant entry right
  before it, none right after it), \<open>generateAnimationFrames\<close> emits exactly one frame for
  the run: every frame before it shows none of the run's lines and has its cursor at or
  before the run's first line; the frame itself shows all lines of the run fully revealed,
  with the cursor on the last of them; every frame after it shows them all and has its
  cursor past the run. Its hold is \<open>min(400, 150 + N * min(50, 200 / N))\<close> ms.
\<close>

theorem instant_batch_one_frame:
  assumes es: "es = pre @ run @ post"
    and run: "run \<noteq> []"
    and inst: "\<forall>e \<in> set run. shouldBeInstant (outputMode cfg) e"
    and before: "pre = [] \<or> \<not> shouldBeInstant (outputMode cfg) (last pre)"
    and after: "post = [] \<or> \<not> shouldBeInstant (outputMode cfg) (hd post)"
  shows "\<exists>fs1 batch fs2.
      generateAnimationFrames measureText es cfg opts = fs1 @ [batch] @ fs2
      \<and> (\<forall>f \<in> set fs1. length (lines (fstate f)) \<le> length pre
                      \<and> cursorLineIndex (fstate f) \<le> length pre)
      \<and> lines (fstate batch) = map fullLine (pre @ run)
      \<and> cursorLineIndex (fstate batch) = length pre + length run - 1
      \<and> delay batch =
          min 400 (150 + of_nat (length run) * min 50 (200 / of_nat (length run)))
      \<and> (\<forall>f \<in> set fs2. take (length pre + length run) (lines (fstate f)) = map fullLine (pre @ run)
                      \<and> length pre + length run \<le> cursorLineIndex (fstate f))"
proof -
  let ?om = "outputMode cfg"
  let ?mk = "createFrame (adjustedConfig measureText es cfg opts)
      (finalCanvasSize measureText es cfg opts)"
  let ?cpf = "charsPerFrame (typedChars ?om es) (targetFrameCount opts)"
  let ?p = "length pre"
  let ?n = "length run"
  have pn: "?p < length es" "?p + ?n \<le> length es"
    using es run by auto
  have ep: "es ! ?p = hd run"
    using es run by (cases run) (auto simp: nth_append)
  have ip: "shouldBeInstant ?om (es ! ?p)"
    using ep inst run by (cases run) auto
  have bnd: "?p = 0 \<or> (\<exists>q. q < length es \<and> \<not> shouldBeInstant ?om (es ! q) \<and> (q = ?p \<or> Suc q = ?p))"
  proof (cases "pre = []")
    case True
    then show ?thesis by simp
  next
    case False
    then have l: "es ! (?p - 1) = last pre"
      using es by (simp add: nth_append last_conv_nth)
    have "?p - 1 < length es \<and> \<not> shouldBeInstant ?om (es ! (?p - 1)) \<and> Suc (?p - 1) = ?p"
      using l before False pn by simp
    then show ?thesis by blast
  qed
  have k: "batchLen ?om es ?p = ?n"
    unfolding es using inst after by (rule batchLen_run)
  have sh: "shown es (?p + ?n) = map fullLine (pre @ run)"
    using es by (simp add: shown_def)
  have le0: "0 \<le> ?p" and lep: "?p \<le> length es"
    using pn by simp_all
  have "\<exists>A cc'. timeline ?mk ?om ?cpf (typingSpeed opts) es 0 0 =
        A @ timeline ?mk ?om ?cpf (typingSpeed opts) es ?p cc'
      \<and> cc' + typedChars ?om (take 0 es) = 0 + typedChars ?om (take ?p es)
      \<and> (\<forall>f \<in> set A. length (lines (fstate f)) \<le> ?p \<and> cursorLineIndex (fstate f) \<le> ?p)"
    by (rule timeline_reach [OF le0 lep bnd])
  then obtain A cc' where A: "timeline ?mk ?om ?cpf (typingSpeed opts) es 0 0 =
        A @ timeline ?mk ?om ?cpf (typingSpeed opts) es ?p cc'"
      "\<forall>f \<in> set A. length (lines (fstate f)) \<le> ?p \<and> cursorLineIndex (fstate f) \<le> ?p"
    by blast
  let ?batch = "?mk (shown es (?p + ?n)) (?p + ?n - 1) (batchDelay ?n)"
  let ?rest = "timeline ?mk ?om ?cpf (typingSpeed opts) es (?p + ?n) cc'"
  have tp: "timeline ?mk ?om ?cpf (typingSpeed opts) es ?p cc' =
      ?batch # interLine ?mk es (?p + ?n) @ ?rest"
    using timeline_batch [OF pn(1) ip, of ?mk ?cpf "typingSpeed opts" cc'] k by simp
  let ?fs1 = "?mk [] 0 500 # A"
  let ?fs2 = "interLine ?mk es (?p + ?n) @ ?rest
      @ [?mk (shown es (length es)) (length es) 2000]"
  have eq: "generateAnimationFrames measureText es cfg opts = ?fs1 @ [?batch] @ ?fs2"
    using A(1) tp by (simp add: generate_timeline)
  have f1: "\<forall>f \<in> set ?fs1. length (lines (fstate f)) \<le> ?p \<and> cursorLineIndex (fstate f) \<le> ?p"
    using A(2) by (simp add: createFrame_def)
  have rest: "take (?p + ?n) (lines (fstate f)) = shown es (?p + ?n)
      \<and> ?p + ?n \<le> cursorLineIndex (fstate f)" if r: "f \<in> set ?rest" for f
    using timeline_keeps [OF pn(2) r] timeline_cursor_ge [OF r] by simp
  have f2: "\<forall>f \<in> set ?fs2. take (?p + ?n) (lines (fstate f)) = map fullLine (pre @ run)
      \<and> ?p + ?n \<le> cursorLineIndex (fstate f)"
    using rest sh pn(2)
    by (auto simp: interLine_def createFrame_def take_shown length_shown split: if_splits)
  have b1: "lines (fstate ?batch) = map fullLine (pre @ run)"
    using sh by (simp add: createFrame_def)
  have b2: "cursorLineIndex (fstate ?batch) = ?p + ?n - 1"
    by (simp add: createFrame_def)
  have b3: "delay ?batch = min 400 (150 + of_nat ?n * min 50 (200 / of_nat ?n))"
    by (simp add: createFrame_def batchDelay_formula)
  show ?thesis
    using eq f1 f2 b1 b2 b3 by blast
qed

theorem instant_batch_one_frame_witness:
  "parseLines [js ''> ls'', js ''!!'', js ''a.txt'', js ''b.txt'', js ''!!''] (js ''$ '') =
     [\<lparr>etype = Command, etext = js ''ls'', showPrompt = True, instant = False\<rparr>]
     @ [\<lparr>etype = Output, etext = js ''a.txt'', showPrompt = False, instant = True\<rparr>,
        \<lparr>etype = Output, etext = js ''b.txt'', showPrompt = False, instant = True\<rparr>]
     @ []
   \<and> \<not> shouldBeInstant (outputMode sampleConfig)
         \<lparr>etype = Command, etext = js ''ls'', showPrompt = True, instant = False\<rparr>
   \<and> shouldBeInstant (outputMode sampleConfig)
         \<lparr>etype = Output, etext = js ''a.txt'', showPrompt = False, instant = True\<rparr>
   \<and> shouldBeInstant (outputMode sampleConfig)
         \<lparr>etype = Output, etext = js ''b.txt'', showPrompt = False, instant = True\<rparr>
   \<and> (\<exists>fs1 batch fs2.
        generateAnimationFrames monoMeasure
          (parseLines [js ''> ls'', js ''!!'', js ''a.txt'', js ''b.txt'', js ''!!''] (js ''$ ''))
          sampleConfig defaultOptions = fs1 @ [batch] @ fs2
        \<and> (\<forall>f \<in> set fs1. length (lines (fstate f)) \<le> 1 \<and> cursorLineIndex (fstate f) \<le> 1)
        \<and> lines (fstate batch) =
            [Some \<lparr>ltext = js ''ls'', lshowPrompt = True\<rparr>,
             Some \<lparr>ltext = js ''a.txt'', lshowPrompt = False\<rparr>,
             Some \<lparr>ltext = js ''b.txt'', lshowPrompt = False\<rparr>]
        \<and> cursorLineIndex (fstate batch) = 2
        \<and> delay batch = 250
        \<and> (\<forall>f \<in> set fs2. 3 \<le> cursorLineIndex (fstate f)))"
proof -
  let ?c = "\<lparr>etype = Command, etext = js ''ls'', showPrompt = True, instant = False\<rparr>"
  let ?a = "\<lparr>etype = Output, etext = js ''a.txt'', showPrompt = False, instant = True\<rparr>"
  let ?b = "\<lparr>etype = Output, etext = js ''b.txt'', showPrompt = False, instant = True\<rparr>"
  let ?es = "parseLines [js ''> ls'', js ''!!'', js ''a.txt'', js ''b.txt'', js ''!!''] (js ''$ '')"
  have es: "?es = [?c] @ [?a, ?b] @ []" by code_simp
  have om: "outputMode sampleConfig = Typing" by (simp add: sampleConfig_def)
  have c: "\<not> shouldBeInstant (outputMode sampleConfig) ?c"
    by (simp add: shouldBeInstant_def om)
  have a: "shouldBeInstant (outputMode sampleConfig) ?a"
    by (simp add: shouldBeInstant_def)
  have b: "shouldBeInstant (outputMode sampleConfig) ?b"
    by (simp add: shouldBeInstant_def)
  have run: "[?a, ?b] \<noteq> []" by simp
  have inst: "\<forall>e \<in> set [?a, ?b]. shouldBeInstant (outputMode sampleConfig) e"
    using a b by simp
  have before: "[?c] = [] \<or> \<not> shouldBeInstant (outputMode sampleConfig) (last [?c])"
    using c by simp
  have after: "([]::entry list) = [] \<or> \<not> shouldBeInstant (outputMode sampleConfig) (hd [])"
    by simp
  obtain fs1 batch fs2 where
    g: "generateAnimationFrames monoMeasure ?es sampleConfig defaultOptions = fs1 @ [batch] @ fs2"
    and f1: "\<forall>f \<in> set fs1. length (lines (fstate f)) \<le> length [?c]
                      \<and> cursorLineIndex (fstate f) \<le> length [?c]"
    and l: "lines (fstate batch) = map fullLine ([?c] @ [?a, ?b])"
    and cu: "cursorLineIndex (fstate batch) = length [?c] + length [?a, ?b] - 1"
    and d: "delay batch =
          min 400 (150 + of_nat (length [?a, ?b]) * min 50 (200 / of_nat (length [?a, ?b])))"
    and f2: "\<forall>f \<in> set fs2. take (length [?c] + length [?a, ?b]) (lines (fstate f))
                        = map fullLine ([?c] @ [?a, ?b])
                      \<and> length [?c] + length [?a, ?b] \<le> cursorLineIndex (fstate f)"
    using instant_batch_one_frame [OF es run inst before after, of monoMeasure defaultOptions]
    by blast
  have f1': "\<forall>f \<in> set fs1. length (lines (fstate f)) \<le> 1 \<and> cursorLineIndex (fstate f) \<le> 1"
    using f1 by simp
  have f2': "\<forall>f \<in> set fs2. 3 \<le> cursorLineIndex (fstate f)"
    using f2 by (simp add: numeral_3_eq_3)
  have l': "lines (fstate batch) =
            [Some \<lparr>ltext = js ''ls'', lshowPrompt = True\<rparr>,
             Some \<lparr>ltext = js ''a.txt'', lshowPrompt = False\<rparr>,
             Some \<lparr>ltext = js ''b.txt'', lshowPrompt = False\<rparr>]"
    using l by (simp add: fullLine_def)
  have cu': "cursorLineIndex (fstate batch) = 2"
    using cu by simp
  have d': "delay batch = 250"
    using d by simp
  have ex: "\<exists>fs1 batch fs2.
        generateAnimationFrames monoMeasure ?es sampleConfig defaultOptions = fs1 @ [batch] @ fs2
        \<and> (\<forall>f \<in> set fs1. length (lines (fstate f)) \<le> 1 \<and> cursorLineIndex (fstate f) \<le> 1)
        \<and> lines (fstate batch) =
            [Some \<lparr>ltext = js ''ls'', lshowPrompt = True\<rparr>,
             Some \<lparr>ltext = js ''a.txt'', lshowPrompt = False\<rparr>,
             Some \<lparr>ltext = js ''b.txt'', lshowPrompt = False\<rparr>]
        \<and> cursorLineIndex (fstate batch) = 2
        \<and> delay batch = 250
        \<and> (\<forall>f \<in> set fs2. 3 \<le> cursorLineIndex (fstate f))"
    using g f1' l' cu' d' f2' by blast
  show ?thesis
    by (rule conjI [OF es conjI [OF c conjI [OF a conjI [OF b ex]]]])
qed

section \<open>Sizing: results\<close>



section \<open>The GIF encoder: results\<close>

text \<open>
  C10. The claim says that the delay written for each frame is
  \<open>max(2, round(holdDurationMs / 10))\<close> centiseconds, so that every exported frame is shown
  for at least 20 ms. The code computes that number, but hands it to an encoder whose
  \<open>delay\<close> option is in milliseconds, and the encoder divides by ten once more: holds of
  500, 30 and 2000 ms are written as 5, 0 and 20 centiseconds, holds of 500, 45 and 2000 ms
  as 5, 1 and 20.
\<close>

theorem createGIF_written_delays:
  "map delay (generateAnimationFrames monoMeasure (parseLines [js ''> a''] (js ''$ ''))
       sampleConfig (defaultOptions\<lparr>typingSpeed := 30\<rparr>)) = [500, 30, 2000]
   \<and> map delayOption (generateAnimationFrames monoMeasure (parseLines [js ''> a''] (js ''$ ''))
       sampleConfig (defaultOptions\<lparr>typingSpeed := 30\<rparr>)) = [50, 3, 200]
   \<and> createGIF (generateAnimationFrames monoMeasure (parseLines [js ''> a''] (js ''$ ''))
       sampleConfig (defaultOptions\<lparr>typingSpeed := 30\<rparr>)) = Inr [5, 0, 20]
   \<and> map delay (generateAnimationFrames monoMeasure (parseLines [js ''> a''] (js ''$ ''))
       sampleConfig (defaultOptions\<lparr>typingSpeed := 45\<rparr>)) = [500, 45, 2000]
   \<and> map delayOption (generateAnimationFrames monoMeasure (parseLines [js ''> a''] (js ''$ ''))
       sampleConfig (defaultOptions\<lparr>typingSpeed := 45\<rparr>)) = [50, 5, 200]
   \<and> createGIF (generateAnimationFrames monoMeasure (parseLines [js ''> a''] (js ''$ ''))
       sampleConfig (defaultOptions\<lparr>typingSpeed := 45\<rparr>)) = Inr [5, 1, 20]
   \<and> createGIF [] = Inl NoFrames"
  by code_simp


section \<open>The driver and the generator: results\<close>

text \<open>
  C1. For every non-empty entry list, when the driver completes on its own (whatever the
  timestamps, the speed and the line delay), it shows every line with its full text and
  complete, and the generator's last frame shows every line with its full text: the lines
  agree. The cursor positions do not: the generator's last frame has the cursor one past the
  last line, and so has \<open>skipToEnd\<close>, but natural completion leaves \<open>currentLineIndex\<close> on
  the last line, since \<open>lineIdx\<close> only advances when another line follows.
\<close>

theorem driver_cursor_stays_on_last_line:
  assumes ne: "es \<noteq> []"
    and fin: "isComplete (runDriver (lineTexts es) speed lineDelay (outputMode cfg) (Some es)
                 (startDriver (lineTexts es) True) tss)"
  shows "displayedLines (runDriver (lineTexts es) speed lineDelay (outputMode cfg) (Some es)
             (startDriver (lineTexts es) True) tss)
           = map (\<lambda>e. Some \<lparr>ttext = etext e, complete = True\<rparr>) es
     \<and> lines (fstate (last (generateAnimationFrames measureText es cfg opts)))
           = map (\<lambda>e. Some \<lparr>ltext = etext e, lshowPrompt = showPrompt e\<rparr>) es
     \<and> cursorLineIndex (fstate (last (generateAnimationFrames measureText es cfg opts)))
           = length es
     \<and> currentLineIndex (skipToEnd (lineTexts es)
           (runDriver (lineTexts es) speed lineDelay (outputMode cfg) (Some es)
             (startDriver (lineTexts es) True) tss)) = length es
     \<and> currentLineIndex (runDriver (lineTexts es) speed lineDelay (outputMode cfg) (Some es)
             (startDriver (lineTexts es) True) tss) = length es - 1"
proof -
  let ?lns = "lineTexts es"
  let ?s = "runDriver ?lns speed lineDelay (outputMode cfg) (Some es) (startDriver ?lns True) tss"
  have "?lns \<noteq> []" using ne by (simp add: lineTexts_def)
  then have "driverInv ?lns (startDriver ?lns True)" by (rule driverInv_start)
  then have inv: "driverInv ?lns ?s" by (rule runDriver_inv)
  have n: "length ?lns = length es" by (simp add: lineTexts_def)
  have d: "displayedLines ?s = doneLines ?lns (length ?lns)"
    and i: "d_lineIdx ?s + 1 = length ?lns"
    and c: "currentLineIndex ?s = d_lineIdx ?s"
    using inv fin by (simp_all add: driverInv_def)
  have a: "displayedLines ?s = map (\<lambda>e. Some \<lparr>ttext = etext e, complete = True\<rparr>) es"
    using d by (simp add: doneLines_def lineTexts_def comp_def)
  have b: "lines (fstate (last (generateAnimationFrames measureText es cfg opts)))
           = map (\<lambda>e. Some \<lparr>ltext = etext e, lshowPrompt = showPrompt e\<rparr>) es"
    by (simp add: generate_last createFrame_def shown_def fullLine_def)
  have g: "cursorLineIndex (fstate (last (generateAnimationFrames measureText es cfg opts)))
           = length es"
    by (simp add: generate_last createFrame_def)
  have k: "currentLineIndex (skipToEnd ?lns ?s) = length es"
    by (simp add: skipToEnd_def n)
  have e: "currentLineIndex ?s = length es - 1"
    using i c n by simp
  show ?thesis
    by (rule conjI [OF a conjI [OF b conjI [OF g conjI [OF k e]]]])
qed


theorem driver_cursor_stays_on_last_line_witness:
  "parseLines [js ''> a''] (js ''$ '') \<noteq> []
   \<and> isComplete (runDriver (lineTexts (parseLines [js ''> a''] (js ''$ ''))) 50 300
        (outputMode sampleConfig) (Some (parseLines [js ''> a''] (js ''$ '')))
        (startDriver (lineTexts (parseLines [js ''> a''] (js ''$ ''))) True) [16, 66, 116])
   \<and> currentLineIndex (runDriver (lineTexts (parseLines [js ''> a''] (js ''$ ''))) 50 300
        (outputMode sampleConfig) (Some (parseLines [js ''> a''] (js ''$ '')))
        (startDriver (lineTexts (parseLines [js ''> a''] (js ''$ ''))) True) [16, 66, 116]) = 0
   \<and> cursorLineIndex (fstate (last (generateAnimationFrames monoMeasure
        (parseLines [js ''> a''] (js ''$ '')) sampleConfig defaultOptions))) = 1
   \<and> currentLineIndex (skipToEnd (lineTexts (parseLines [js ''> a''] (js ''$ '')))
        (runDriver (lineTexts (parseLines [js ''> a''] (js ''$ ''))) 50 300
          (outputMode sampleConfig) (Some (parseLines [js ''> a''] (js ''$ '')))
          (startDriver (lineTexts (parseLines [js ''> a''] (js ''$ ''))) True) [16, 66, 116])) = 1"
proof -
  let ?es = "parseLines [js ''> a''] (js ''$ '')"
  let ?s = "runDriver (lineTexts ?es) 50 300 (outputMode sampleConfig) (Some ?es)
        (startDriver (lineTexts ?es) True) [16, 66, 116]"
  have ne: "?es \<noteq> []" by code_simp
  have l: "length ?es = 1" by code_simp
  have c: "isComplete ?s" by code_simp
  note t = driver_cursor_stays_on_last_line [OF ne c, of monoMeasure defaultOptions]
  have g: "cursorLineIndex (fstate (last (generateAnimationFrames monoMeasure ?es sampleConfig
      defaultOptions))) = 1"
    using t l by simp
  have k: "currentLineIndex (skipToEnd (lineTexts ?es) ?s) = 1"
    using t l by simp
  have e: "currentLineIndex ?s = 0"
    using t l by simp
  show ?thesis
    by (rule conjI [OF ne conjI [OF c conjI [OF e conjI [OF g k]]]])
qed



section \<open>The painter: results\<close>

text \<open>
  C8, as claimed: in a frame of the export path the cursor glyph is drawn on a display line
  only while that line is incomplete. The code does otherwise: the frame pushed on the last
  character of a typed line shows the whole text of the line, and the cursor after it.
\<close>

theorem export_cursor_counterexample:
  "revealed (generateAnimationFrames monoMeasure (parseLines [js ''> a''] (js ''$ ''))
       sampleConfig defaultOptions ! 1) 0
     = etext (parseLines [js ''> a''] (js ''$ '') ! 0)
   \<and> frameCanvas monoMeasure (generateAnimationFrames monoMeasure
         (parseLines [js ''> a''] (js ''$ '')) sampleConfig defaultOptions ! 1)
     = Inr \<lparr>cwidth = 800, cheight = 280,
            painted = [FillPrompt (js ''$ ''), FillText (js ''a''), DrawCursor 0]\<rparr>"
  by code_simp


text \<open>
  C8, amended. \<open>drawTerminal\<close> draws the cursor glyph on a display line exactly when
  \<open>showCursor\<close> is set and the line's index is \<open>cursorLineIndex\<close>; it does not look at how
  much of the line is revealed. So in every frame of \<open>generateAnimationFrames\<close>, which
  paints without error, the glyph is on a display line exactly when that line is the one at
  \<open>cursorLineIndex\<close>, fully revealed or not.
\<close>

theorem export_cursor_on_current_line:
  "(\<forall>ops. drawTerminal c ds = Inr ops \<longrightarrow>
      (DrawCursor i \<in> set ops) =
        (showCursor ds \<and> i = cursorLineIndex ds \<and> i < length (lines ds)))
   \<and> (\<forall>f \<in> set (generateAnimationFrames measureText es cfg opts).
        \<exists>cv. frameCanvas measureText f = Inr cv
          \<and> (DrawCursor i \<in> set (painted cv)) =
              (i = cursorLineIndex (fstate f) \<and> i < length (lines (fstate f))))"
proof -
  have a: "\<forall>ops. drawTerminal c ds = Inr ops \<longrightarrow>
      (DrawCursor i \<in> set ops) =
        (showCursor ds \<and> i = cursorLineIndex ds \<and> i < length (lines ds))"
    using drawTerminal_cursor by blast
  have b: "\<exists>cv. frameCanvas measureText f = Inr cv
          \<and> (DrawCursor i \<in> set (painted cv)) =
              (i = cursorLineIndex (fstate f) \<and> i < length (lines (fstate f)))"
    if f: "f \<in> set (generateAnimationFrames measureText es cfg opts)" for f
  proof -
    have nh: "None \<notin> set (lines (fstate f))" and sc: "showCursor (fstate f)"
      using generate_no_holes [OF f] by simp_all
    obtain ops' where r: "drawLines (fconfig f) (showCursor (fstate f))
        (cursorLineIndex (fstate f)) 0 (lines (fstate f)) = Inr ops'"
      using drawLines_total [OF nh] by blast
    then obtain ops where d: "drawTerminal (fconfig f) (fstate f) = Inr ops"
      by (simp add: drawTerminal_def)
    have cur: "(DrawCursor i \<in> set ops) =
        (i = cursorLineIndex (fstate f) \<and> i < length (lines (fstate f)))"
      using drawTerminal_cursor [OF d, of i] sc by simp
    have "\<exists>cv. frameCanvas measureText f = Inr cv \<and> painted cv = ops"
      using d nh by (simp add: frameCanvas_def createTerminalCanvas_def Let_def)
    then show ?thesis using cur by auto
  qed
  show ?thesis using a b by blast
qed


theorem export_cursor_on_current_line_witness:
  "drawTerminal sampleConfig
      \<lparr>lines = [Some \<lparr>ltext = js ''a'', lshowPrompt = True\<rparr>], showCursor = True,
       cursorLineIndex = 0\<rparr>
     = Inr [FillPrompt (js ''$ ''), FillText (js ''a''), DrawCursor 0]
   \<and> DrawCursor 0 \<in> set [FillPrompt (js ''$ ''), FillText (js ''a''), DrawCursor 0]
   \<and> generateAnimationFrames monoMeasure (parseLines [js ''> a''] (js ''$ ''))
         sampleConfig defaultOptions ! 1
       \<in> set (generateAnimationFrames monoMeasure (parseLines [js ''> a''] (js ''$ ''))
         sampleConfig defaultOptions)
   \<and> (\<exists>cv. frameCanvas monoMeasure (generateAnimationFrames monoMeasure
           (parseLines [js ''> a''] (js ''$ '')) sampleConfig defaultOptions ! 1) = Inr cv
         \<and> DrawCursor 0 \<in> set (painted cv))"
proof -
  let ?ds = "\<lparr>lines = [Some \<lparr>ltext = js ''a'', lshowPrompt = True\<rparr>], showCursor = True,
       cursorLineIndex = 0\<rparr>"
  let ?ops = "[FillPrompt (js ''$ ''), FillText (js ''a''), DrawCursor 0]"
  let ?G = "generateAnimationFrames monoMeasure (parseLines [js ''> a''] (js ''$ ''))
         sampleConfig defaultOptions"
  note t = export_cursor_on_current_line [of sampleConfig ?ds 0 monoMeasure
      "parseLines [js ''> a''] (js ''$ '')" sampleConfig defaultOptions]
  have d: "drawTerminal sampleConfig ?ds = Inr ?ops" by code_simp
  have c: "DrawCursor 0 \<in> set ?ops"
    using t d by simp
  have len: "1 < length ?G" by code_simp
  then have m: "?G ! 1 \<in> set ?G" by (rule nth_mem)
  have cur: "0 = cursorLineIndex (fstate (?G ! 1)) \<and> 0 < length (lines (fstate (?G ! 1)))"
    by code_simp
  have "\<exists>cv. frameCanvas monoMeasure (?G ! 1) = Inr cv
          \<and> (DrawCursor 0 \<in> set (painted cv)) =
              (0 = cursorLineIndex (fstate (?G ! 1)) \<and> 0 < length (lines (fstate (?G ! 1))))"
    using t m by blast
  then have e: "\<exists>cv. frameCanvas monoMeasure (?G ! 1) = Inr cv \<and> DrawCursor 0 \<in> set (painted cv)"
    using cur by blast
  show ?thesis
    by (rule conjI [OF d conjI [OF c conjI [OF m e]]])
qed

end
